theory Spec2Isabelle
  imports Complex_Main
begin

section \<open>JavaScript Map\<close>

text \<open>
  A JavaScript \<open>Map\<close> iterates its keys in insertion order: \<open>set\<close> on a key that is
  present replaces the value where the key stands, \<open>set\<close> on a new key appends it,
  \<open>delete\<close> removes the key. It is modelled as an association list in that order.
  \<open>keys().next().value\<close> is the first key, \<open>undefined\<close> (here \<open>None\<close>) on an empty map.
\<close>

type_synonym ('k, 'v) jsmap = "('k \<times> 'v) list"

fun map_set :: "'k \<Rightarrow> 'v \<Rightarrow> ('k, 'v) jsmap \<Rightarrow> ('k, 'v) jsmap" where
  "map_set k v [] = [(k, v)]"
| "map_set k v ((k', v') # m) =
     (if k' = k then (k, v) # m else (k', v') # map_set k v m)"

definition map_get :: "'k \<Rightarrow> ('k, 'v) jsmap \<Rightarrow> 'v option" where
  "map_get k m = map_of m k"

definition map_has :: "'k \<Rightarrow> ('k, 'v) jsmap \<Rightarrow> bool" where
  "map_has k m = (map_of m k \<noteq> None)"

definition map_delete :: "'k \<Rightarrow> ('k, 'v) jsmap \<Rightarrow> ('k, 'v) jsmap" where
  "map_delete k m = filter (\<lambda>p. fst p \<noteq> k) m"

definition map_keys :: "('k, 'v) jsmap \<Rightarrow> 'k list" where
  "map_keys m = map fst m"

definition map_first_key :: "('k, 'v) jsmap \<Rightarrow> 'k option" where
  "map_first_key m = (case m of [] \<Rightarrow> None | p # _ \<Rightarrow> Some (fst p))"

section \<open>FrontendCache (client/src/lib/cache.ts)\<close>

text \<open>
  Times are epoch milliseconds as returned by \<open>Date.now()\<close>; every operation that reads
  the clock takes the reading as its argument \<open>now\<close>. A payload is a \<open>'v option\<close>:
  \<open>None\<close> is \<open>null\<close> (or \<open>undefined\<close>), which a caller can store like any other
  value. \<open>get\<close> returns the stored payload itself, and \<open>null\<close> for a key it does not
  find, so \<open>None\<close> is its result in both cases.
\<close>

record 'v CacheItem =
  data :: "'v option"
  timestamp :: int
  ttl :: int

text \<open>
  \<open>timers\<close> is the part of the runtime's timer queue that belongs to this cache: one
  pending callback \<open>() => this.cache.delete(key)\<close> per \<open>setTimeout\<close> call of \<open>set\<close>,
  with the time it becomes due. No method of the class keeps the handle.

  \<open>setTimeout\<close> takes its delay as a 32-bit integer: a delay above 2147483647 or
  below 1 is replaced by 1.
\<close>

definition timer_delay :: "int \<Rightarrow> int" where
  "timer_delay t = (if t > 2147483647 \<or> t < 1 then 1 else t)"

record 'v FrontendCache =
  cache :: "(string, 'v CacheItem) jsmap"
  hits :: nat
  misses :: nat
  timers :: "(int \<times> string) list"

definition new_FrontendCache :: "'v FrontendCache" where
  "new_FrontendCache = \<lparr>cache = [], hits = 0, misses = 0, timers = []\<rparr>"

definition FrontendCache_set ::
  "string \<Rightarrow> 'v option \<Rightarrow> int \<Rightarrow> int \<Rightarrow> 'v FrontendCache \<Rightarrow> 'v FrontendCache" where
  "FrontendCache_set key d t now s =
     s\<lparr>cache := map_set key \<lparr>data = d, timestamp = now, ttl = t\<rparr> (cache s),
       timers := timers s @ [(now + timer_delay t, key)]\<rparr>"

definition FrontendCache_set_default ::
  "string \<Rightarrow> 'v option \<Rightarrow> int \<Rightarrow> 'v FrontendCache \<Rightarrow> 'v FrontendCache" where
  "FrontendCache_set_default key d now s = FrontendCache_set key d 300000 now s"

definition FrontendCache_get ::
  "string \<Rightarrow> int \<Rightarrow> 'v FrontendCache \<Rightarrow> 'v option \<times> 'v FrontendCache" where
  "FrontendCache_get key now s =
     (case map_get key (cache s) of
        None \<Rightarrow> (None, s\<lparr>misses := misses s + 1\<rparr>)
      | Some item \<Rightarrow>
          if now - timestamp item > ttl item
          then (None, s\<lparr>cache := map_delete key (cache s), misses := misses s + 1\<rparr>)
          else (data item, s\<lparr>hits := hits s + 1\<rparr>))"

definition FrontendCache_has ::
  "string \<Rightarrow> int \<Rightarrow> 'v FrontendCache \<Rightarrow> bool \<times> 'v FrontendCache" where
  "FrontendCache_has key now s =
     (case map_get key (cache s) of
        None \<Rightarrow> (False, s)
      | Some item \<Rightarrow>
          if now - timestamp item > ttl item
          then (False, s\<lparr>cache := map_delete key (cache s)\<rparr>)
          else (True, s))"

definition FrontendCache_clear :: "'v FrontendCache \<Rightarrow> 'v FrontendCache" where
  "FrontendCache_clear s = s\<lparr>cache := [], hits := 0, misses := 0\<rparr>"

record FrontendStats =
  stat_size :: nat
  stat_hits :: nat
  stat_misses :: nat
  hitRate :: real

definition FrontendCache_getStats :: "'v FrontendCache \<Rightarrow> FrontendStats" where
  "FrontendCache_getStats s =
     \<lparr>stat_size = length (cache s),
      stat_hits = hits s,
      stat_misses = misses s,
      hitRate = (if hits s + misses s > 0
                 then (real (hits s) / real (hits s + misses s)) * 100 else 0)\<rparr>"

text \<open>
  The timer callbacks. The runtime measures the delay on a clock of its own, so a
  callback can run when \<open>Date.now()\<close> is still one millisecond short of the due time,
  and not earlier: \<open>run_timers now\<close> runs, in queue order, every pending callback that
  can run at \<open>now\<close> and leaves the others pending.
\<close>

definition can_run :: "int \<Rightarrow> int \<times> string \<Rightarrow> bool" where
  "can_run now p = (fst p - 1 \<le> now)"

definition timer_callback :: "string \<Rightarrow> 'v FrontendCache \<Rightarrow> 'v FrontendCache" where
  "timer_callback key s = s\<lparr>cache := map_delete key (cache s)\<rparr>"

definition run_timers :: "int \<Rightarrow> 'v FrontendCache \<Rightarrow> 'v FrontendCache" where
  "run_timers now s =
     (fold (\<lambda>p. timer_callback (snd p)) (filter (can_run now) (timers s)) s)
       \<lparr>timers := filter (\<lambda>p. \<not> can_run now p) (timers s)\<rparr>"

text \<open>
  What can happen to the cache: a call of one of its methods, or the runtime running the
  timer callbacks that are due. Each event carries the clock reading at which it happens.
\<close>

datatype 'v cache_event =
  Set string "'v option" int
| Get string
| Has string
| Clear
| GetStats
| TimersFire

fun FrontendCache_event :: "int \<Rightarrow> 'v cache_event \<Rightarrow> 'v FrontendCache \<Rightarrow> 'v FrontendCache" where
  "FrontendCache_event now (Set key d t) s = FrontendCache_set key d t now s"
| "FrontendCache_event now (Get key) s = snd (FrontendCache_get key now s)"
| "FrontendCache_event now (Has key) s = snd (FrontendCache_has key now s)"
| "FrontendCache_event now Clear s = FrontendCache_clear s"
| "FrontendCache_event now GetStats s = s"
| "FrontendCache_event now TimersFire s = run_timers now s"

fun FrontendCache_events ::
  "(int \<times> 'v cache_event) list \<Rightarrow> 'v FrontendCache \<Rightarrow> 'v FrontendCache" where
  "FrontendCache_events [] s = s"
| "FrontendCache_events (e # es) s = FrontendCache_events es (FrontendCache_event (fst e) (snd e) s)"

fun sets_key :: "string \<Rightarrow> 'v cache_event \<Rightarrow> bool" where
  "sets_key key (Set k d t) = (k = key)"
| "sets_key key _ = False"

section \<open>CacheManager (the server-side cache of the performance module)\<close>

text \<open>
  The class keeps two maps, \<open>cache\<close> (key to value) and \<open>ttl\<close> (key to expiry time);
  they are the fields \<open>cm_cache\<close> and \<open>cm_ttl\<close>.
\<close>

record 'v CacheManager =
  cm_cache :: "(string, 'v) jsmap"
  cm_ttl :: "(string, int) jsmap"
  defaultTTL :: int
  maxSize :: nat

definition new_CacheManager :: "'v CacheManager" where
  "new_CacheManager =
     \<lparr>cm_cache = [], cm_ttl = [], defaultTTL = 5 * 60 * 1000, maxSize = 1000\<rparr>"

definition CacheManager_delete :: "string \<Rightarrow> 'v CacheManager \<Rightarrow> 'v CacheManager" where
  "CacheManager_delete key s =
     s\<lparr>cm_cache := map_delete key (cm_cache s), cm_ttl := map_delete key (cm_ttl s)\<rparr>"

text \<open>
  The eviction step of \<open>set\<close>: when the map is full, the first key of \<open>cache\<close> is deleted
  from both maps. On an empty map the first key is \<open>undefined\<close> and both deletes do
  nothing.
\<close>

definition evict_if_full :: "'v CacheManager \<Rightarrow> 'v CacheManager" where
  "evict_if_full s =
     (if length (cm_cache s) \<ge> maxSize s
      then (case map_first_key (cm_cache s) of
              None \<Rightarrow> s
            | Some firstKey \<Rightarrow> CacheManager_delete firstKey s)
      else s)"

definition CacheManager_set ::
  "string \<Rightarrow> 'v \<Rightarrow> int \<Rightarrow> int \<Rightarrow> 'v CacheManager \<Rightarrow> 'v CacheManager" where
  "CacheManager_set key v t now s =
     (let s1 = evict_if_full s
      in s1\<lparr>cm_cache := map_set key v (cm_cache s1),
            cm_ttl := map_set key (now + t) (cm_ttl s1)\<rparr>)"

definition CacheManager_set_default ::
  "string \<Rightarrow> 'v \<Rightarrow> int \<Rightarrow> 'v CacheManager \<Rightarrow> 'v CacheManager" where
  "CacheManager_set_default key v now s = CacheManager_set key v (defaultTTL s) now s"

text \<open>
  \<open>Date.now() > expiry\<close> is false when \<open>ttl\<close> has no entry for the key (the comparison
  with \<open>undefined\<close>).
\<close>

definition CacheManager_get ::
  "string \<Rightarrow> int \<Rightarrow> 'v CacheManager \<Rightarrow> 'v option \<times> 'v CacheManager" where
  "CacheManager_get key now s =
     (if \<not> map_has key (cm_cache s) then (None, s)
      else if (case map_get key (cm_ttl s) of None \<Rightarrow> False | Some expiry \<Rightarrow> now > expiry)
      then (None, CacheManager_delete key s)
      else (map_get key (cm_cache s), s))"

definition CacheManager_has ::
  "string \<Rightarrow> int \<Rightarrow> 'v CacheManager \<Rightarrow> bool \<times> 'v CacheManager" where
  "CacheManager_has key now s =
     (case CacheManager_get key now s of (r, s') \<Rightarrow> (r \<noteq> None, s'))"

definition CacheManager_clear :: "'v CacheManager \<Rightarrow> 'v CacheManager" where
  "CacheManager_clear s = s\<lparr>cm_cache := [], cm_ttl := []\<rparr>"

definition CacheManager_cleanup :: "int \<Rightarrow> 'v CacheManager \<Rightarrow> 'v CacheManager" where
  "CacheManager_cleanup now s =
     fold (\<lambda>p s'. if now > snd p then CacheManager_delete (fst p) s' else s') (cm_ttl s) s"

text \<open>
  The method calls on a \<open>CacheManager\<close>, the periodic sweep (\<open>cleanup\<close>, run by
  \<open>setInterval\<close>) among them, each with the clock reading at which it happens. The
  reachable states are those a call sequence produces from \<open>new CacheManager()\<close>.
\<close>

datatype 'v manager_call =
  MSet string 'v int
| MGet string
| MHas string
| MDelete string
| MClear
| MCleanup

fun CacheManager_call :: "int \<Rightarrow> 'v manager_call \<Rightarrow> 'v CacheManager \<Rightarrow> 'v CacheManager" where
  "CacheManager_call now (MSet key v t) s = CacheManager_set key v t now s"
| "CacheManager_call now (MGet key) s = snd (CacheManager_get key now s)"
| "CacheManager_call now (MHas key) s = snd (CacheManager_has key now s)"
| "CacheManager_call now (MDelete key) s = CacheManager_delete key s"
| "CacheManager_call now MClear s = CacheManager_clear s"
| "CacheManager_call now MCleanup s = CacheManager_cleanup now s"

fun CacheManager_calls ::
  "(int \<times> 'v manager_call) list \<Rightarrow> 'v CacheManager \<Rightarrow> 'v CacheManager" where
  "CacheManager_calls [] s = s"
| "CacheManager_calls (c # cs) s = CacheManager_calls cs (CacheManager_call (fst c) (snd c) s)"

fun msets_key :: "string \<Rightarrow> 'v manager_call \<Rightarrow> bool" where
  "msets_key key (MSet k v t) = (k = key)"
| "msets_key key _ = False"

section \<open>debounce\<close>

text \<open>
  The runtime's timers as far as a debounced function uses them: \<open>setTimeout\<close> hands
  out a fresh positive handle and queues the callback with the time it becomes due,
  \<open>clearTimeout\<close> removes the timer with the given handle and does nothing for a handle
  that is not pending or for \<open>undefined\<close>. A queued callback is \<open>later\<close> of one call of
  the debounced function; it is recorded by the arguments of that call. \<open>timeout\<close> is
  the variable of the closure, \<open>invocations\<close> lists the calls of \<open>func\<close> made so far,
  oldest first.
\<close>

record 'a debounced =
  timeout :: "nat option"
  pending :: "(nat \<times> int \<times> 'a) list"
  next_handle :: nat
  invocations :: "'a list"

definition new_debounced :: "'a debounced" where
  "new_debounced = \<lparr>timeout = None, pending = [], next_handle = 1, invocations = []\<rparr>"

definition clearTimeout :: "nat option \<Rightarrow> 'a debounced \<Rightarrow> 'a debounced" where
  "clearTimeout h s =
     (case h of None \<Rightarrow> s
      | Some i \<Rightarrow> s\<lparr>pending := filter (\<lambda>p. fst p \<noteq> i) (pending s)\<rparr>)"

definition setTimeout :: "'a \<Rightarrow> int \<Rightarrow> int \<Rightarrow> 'a debounced \<Rightarrow> nat \<times> 'a debounced" where
  "setTimeout args wait now s =
     (next_handle s,
      s\<lparr>pending := pending s @ [(next_handle s, now + wait, args)],
        next_handle := next_handle s + 1\<rparr>)"

text \<open>
  \<open>debounce(func, wait)\<close> of the dashboard page and of the server performance module
  (the two are the same text): \<open>executedFunction\<close> is a call of the debounced function,
  \<open>later\<close> the callback it queues.
\<close>

definition later :: "'a \<Rightarrow> 'a debounced \<Rightarrow> 'a debounced" where
  "later args s =
     (let s1 = clearTimeout (timeout s) s
      in s1\<lparr>invocations := invocations s1 @ [args]\<rparr>)"

definition executedFunction :: "int \<Rightarrow> 'a \<Rightarrow> int \<Rightarrow> 'a debounced \<Rightarrow> 'a debounced" where
  "executedFunction wait args now s =
     (let s1 = clearTimeout (timeout s) s;
          (h, s2) = setTimeout args wait now s1
      in s2\<lparr>timeout := Some h\<rparr>)"

text \<open>
  \<open>debounce(func, wait, immediate)\<close> of the client performance utilities. A handle is a
  positive number, so \<open>!timeout\<close> holds exactly when the variable is \<open>undefined\<close> or
  \<open>null\<close>.
\<close>

definition later_immediate :: "bool \<Rightarrow> 'a \<Rightarrow> 'a debounced \<Rightarrow> 'a debounced" where
  "later_immediate immediate args s =
     (let s1 = s\<lparr>timeout := None\<rparr>
      in if \<not> immediate then s1\<lparr>invocations := invocations s1 @ [args]\<rparr> else s1)"

definition executedFunction_immediate ::
  "int \<Rightarrow> bool \<Rightarrow> 'a \<Rightarrow> int \<Rightarrow> 'a debounced \<Rightarrow> 'a debounced" where
  "executedFunction_immediate wait immediate args now s =
     (let callNow = (immediate \<and> timeout s = None);
          s1 = clearTimeout (timeout s) s;
          (h, s2) = setTimeout args wait now s1;
          s3 = s2\<lparr>timeout := Some h\<rparr>
      in if callNow then s3\<lparr>invocations := invocations s3 @ [args]\<rparr> else s3)"

text \<open>
  The runtime runs a timer that is due: it takes the first pending timer whose time has
  come out of the queue and runs its callback. With no timer due nothing happens.
\<close>

definition timer_fires :: "('a \<Rightarrow> 'a debounced \<Rightarrow> 'a debounced) \<Rightarrow> int \<Rightarrow> 'a debounced \<Rightarrow> 'a debounced" where
  "timer_fires callback now s =
     (case find (\<lambda>p. fst (snd p) \<le> now) (pending s) of
        None \<Rightarrow> s
      | Some p \<Rightarrow> callback (snd (snd p)) (s\<lparr>pending := filter (\<lambda>q. fst q \<noteq> fst p) (pending s)\<rparr>))"

text \<open>
  What happens to a debounced function: it is called with arguments, or the runtime
  runs a due timer. Each event carries the clock reading at which it happens.
\<close>

datatype 'a debounce_event = Call 'a | TimerDue

fun debounce_step :: "int \<Rightarrow> int \<Rightarrow> 'a debounce_event \<Rightarrow> 'a debounced \<Rightarrow> 'a debounced" where
  "debounce_step wait now (Call args) s = executedFunction wait args now s"
| "debounce_step wait now TimerDue s = timer_fires later now s"

fun debounce_run ::
  "int \<Rightarrow> (int \<times> 'a debounce_event) list \<Rightarrow> 'a debounced \<Rightarrow> 'a debounced" where
  "debounce_run wait [] s = s"
| "debounce_run wait (e # es) s =
     debounce_run wait es (debounce_step wait (fst e) (snd e) s)"

fun debounce_step_immediate ::
  "int \<Rightarrow> bool \<Rightarrow> int \<Rightarrow> 'a debounce_event \<Rightarrow> 'a debounced \<Rightarrow> 'a debounced" where
  "debounce_step_immediate wait immediate now (Call args) s =
     executedFunction_immediate wait immediate args now s"
| "debounce_step_immediate wait immediate now TimerDue s =
     timer_fires (later_immediate immediate) now s"

fun debounce_run_immediate ::
  "int \<Rightarrow> bool \<Rightarrow> (int \<times> 'a debounce_event) list \<Rightarrow> 'a debounced \<Rightarrow> 'a debounced" where
  "debounce_run_immediate wait immediate [] s = s"
| "debounce_run_immediate wait immediate (e # es) s =
     debounce_run_immediate wait immediate es
       (debounce_step_immediate wait immediate (fst e) (snd e) s)"

text \<open>The calls among the events, in order, each with its time.\<close>

fun calls_of :: "(int \<times> 'a debounce_event) list \<Rightarrow> (int \<times> 'a) list" where
  "calls_of [] = []"
| "calls_of ((t, Call args) # es) = (t, args) # calls_of es"
| "calls_of ((t, TimerDue) # es) = calls_of es"

fun is_timer_event :: "'a debounce_event \<Rightarrow> bool" where
  "is_timer_event TimerDue = True"
| "is_timer_event (Call args) = False"

section \<open>Rows, filters and API calls\<close>

text \<open>
  A row of a record set, and of a JSON response, is an object with one property per
  column; it is an association list from column names to values.
\<close>

datatype cell = Str string | Num int | Null

type_synonym row = "(string, cell) jsmap"

record FilterState =
  vertical :: string
  business :: string
  site :: string
  year :: string
  month :: string
  date :: string

text \<open>The calls of the client's \<open>api\<close> object (and of \<open>mockApiCalls\<close>), with their arguments.\<close>

datatype api_call =
  GetVertical int int
| GetBusiness int int string
| GetSite int int string
| GetYears
| GetMonths string

section \<open>useDashboardData (the hook)\<close>

text \<open>
  The state the hook works on: its filters, the two identity values, and the
  \<open>frontendCache\<close> singleton it imports. The results of the queries are held by the
  query library under the keys \<open>[level, bucketId, userId, parent value]\<close>; the code
  modelled here never addresses that store.
\<close>

record 'v hook =
  hook_filters :: FilterState
  bucketId :: int
  userId :: int
  frontendCache :: "'v FrontendCache"

definition initial_filters :: FilterState where
  "initial_filters =
     \<lparr>vertical = [], business = [], site = [], year = [], month = [], date = []\<rparr>"

text \<open>
  The function that \<open>debouncedUpdateBusiness\<close> debounces. It is created under
  \<open>useCallback(..., [])\<close>, so the \<open>filters\<close> it compares with is the object of the render
  that created it; \<open>closure\<close> stands for that object. In the hook it is the initial state.
\<close>

definition updateBusiness :: "FilterState \<Rightarrow> string \<Rightarrow> 'v hook \<Rightarrow> 'v hook" where
  "updateBusiness closure v st =
     (if v \<noteq> vertical closure
      then st\<lparr>hook_filters := (hook_filters st)\<lparr>vertical := v, business := [], site := []\<rparr>\<rparr>
      else st)"

definition debouncedUpdateBusiness_func :: "string \<Rightarrow> 'v hook \<Rightarrow> 'v hook" where
  "debouncedUpdateBusiness_func v st = updateBusiness initial_filters v st"

text \<open>
  \<open>refreshData\<close>: clear the client cache, then \<open>refetch\<close> of the business, site and
  months queries. A \<open>refetch\<close> runs the query function of its query with the current
  filters; the second component lists the API calls this makes.
\<close>

definition refreshData :: "'v hook \<Rightarrow> 'v hook \<times> api_call list" where
  "refreshData st =
     (st\<lparr>frontendCache := FrontendCache_clear (frontendCache st)\<rparr>,
      [GetBusiness (bucketId st) (userId st) (vertical (hook_filters st)),
       GetSite (bucketId st) (userId st) (business (hook_filters st)),
       GetMonths (year (hook_filters st))])"

section \<open>IndexChairmanDaily (the dashboard page)\<close>

text \<open>
  The page keeps its option lists (the state \<open>data\<close>, here \<open>options\<close>), loading flags
  and cache flags in objects indexed by a string; they are maps. \<open>page_cache\<close> is the
  module's \<open>cache\<close> map, whose entries pair the data with the time they were stored.
\<close>

record metrics =
  loadTime :: int
  filterChanges :: nat
  cacheHits :: nat
  apiCalls :: nat

record page =
  filters :: FilterState
  options :: "string \<rightharpoonup> row list"
  loading :: "string \<rightharpoonup> bool"
  cached :: "string \<rightharpoonup> bool"
  page_metrics :: metrics
  page_cache :: "(string, row list \<times> int) jsmap"

datatype filter_key = Vertical | Business | Site | Year | Month | Date

fun set_filter :: "filter_key \<Rightarrow> string \<Rightarrow> FilterState \<Rightarrow> FilterState" where
  "set_filter Vertical v f = f\<lparr>vertical := v\<rparr>"
| "set_filter Business v f = f\<lparr>business := v\<rparr>"
| "set_filter Site v f = f\<lparr>site := v\<rparr>"
| "set_filter Year v f = f\<lparr>year := v\<rparr>"
| "set_filter Month v f = f\<lparr>month := v\<rparr>"
| "set_filter Date v f = f\<lparr>date := v\<rparr>"

text \<open>The name under which \<open>fetchData\<close> is called for an API call (its \<open>type\<close>).\<close>

fun fetch_type :: "api_call \<Rightarrow> string" where
  "fetch_type (GetVertical b u) = ''getVertical''"
| "fetch_type (GetBusiness b u v) = ''getBusiness''"
| "fetch_type (GetSite b u v) = ''getSite''"
| "fetch_type GetYears = ''getYears''"
| "fetch_type (GetMonths y) = ''getMonths''"

text \<open>
  \<open>fetchData(type, ...args)\<close> in two steps: the part before the \<open>await\<close> sets the
  loading flag of \<open>type\<close>; the part after it, run when the call has settled, stores the
  result (or the empty list after a failure, which \<open>fetchData\<close> catches) and clears the
  flag. \<open>start_fetches\<close> is a row of \<open>fetchData\<close> calls, each run to its \<open>await\<close>.
\<close>

datatype outcome = Resolved "row list" bool | Rejected

definition fetchData_start :: "string \<Rightarrow> page \<Rightarrow> page" where
  "fetchData_start type pg = pg\<lparr>loading := (loading pg)(type \<mapsto> True)\<rparr>"

definition start_fetches :: "api_call list \<Rightarrow> page \<Rightarrow> page" where
  "start_fetches calls pg = fold (\<lambda>c. fetchData_start (fetch_type c)) calls pg"

definition fetchData_settle :: "string \<Rightarrow> outcome \<Rightarrow> page \<Rightarrow> page" where
  "fetchData_settle type result pg =
     (case result of
        Resolved d fromCache \<Rightarrow>
          pg\<lparr>options := (options pg)(type \<mapsto> d),
             cached := (cached pg)(type \<mapsto> fromCache),
             page_metrics := (page_metrics pg)
               \<lparr>apiCalls := apiCalls (page_metrics pg) + 1,
                cacheHits := (if fromCache then cacheHits (page_metrics pg) + 1
                              else cacheHits (page_metrics pg))\<rparr>,
             loading := (loading pg)(type \<mapsto> False)\<rparr>
      | Rejected \<Rightarrow>
          pg\<lparr>options := (options pg)(type \<mapsto> []),
             loading := (loading pg)(type \<mapsto> False)\<rparr>)"

text \<open>
  The function that \<open>debouncedUpdateFilter\<close> debounces, up to its first \<open>await\<close>: the
  state updates it queues, applied in order, and the \<open>fetchData\<close> call it then makes,
  if any, which is the second component. A string is truthy when it is not empty.
\<close>

definition debouncedUpdateFilter_func ::
  "filter_key \<Rightarrow> string \<Rightarrow> page \<Rightarrow> page \<times> api_call list" where
  "debouncedUpdateFilter_func key v pg =
     (let pg1 = pg\<lparr>filters := set_filter key v (filters pg),
                   page_metrics := (page_metrics pg)
                     \<lparr>filterChanges := filterChanges (page_metrics pg) + 1\<rparr>\<rparr>
      in if key = Vertical then
           (let pg2 = pg1\<lparr>filters := (filters pg1)\<lparr>business := [], site := []\<rparr>,
                         options := (options pg1)(''business'' \<mapsto> [], ''site'' \<mapsto> [])\<rparr>;
                calls = (if v \<noteq> [] \<and> v \<noteq> ''All'' then [GetBusiness 1 1 v] else [])
            in (start_fetches calls pg2, calls))
         else if key = Business then
           (let pg2 = pg1\<lparr>filters := (filters pg1)\<lparr>site := []\<rparr>,
                         options := (options pg1)(''site'' \<mapsto> [])\<rparr>;
                calls = (if v \<noteq> [] \<and> v \<noteq> ''All'' then [GetSite 1 1 v] else [])
            in (start_fetches calls pg2, calls))
         else if key = Year then (start_fetches [GetMonths v] pg1, [GetMonths v])
         else (pg1, []))"

text \<open>
  \<open>refreshAllData\<close>: clear the module's cache, then call \<open>fetchData\<close> for each level in
  turn (each call runs to its \<open>await\<close>), and wait for all of them together. The second
  component lists the calls in flight.
\<close>

definition refreshAllData :: "page \<Rightarrow> page \<times> api_call list" where
  "refreshAllData pg =
     (let f = filters pg;
          calls = [GetVertical 1 1, GetYears]
            @ (if vertical f \<noteq> [] \<and> vertical f \<noteq> ''All'' then [GetBusiness 1 1 (vertical f)] else [])
            @ (if business f \<noteq> [] \<and> business f \<noteq> ''All'' then [GetSite 1 1 (business f)] else [])
            @ (if year f \<noteq> [] then [GetMonths (year f)] else [])
      in (start_fetches calls (pg\<lparr>page_cache := []\<rparr>), calls))"

section \<open>The business route (server/routes.ts)\<close>

text \<open>
  The queries the handler of \<open>POST /api/dashboard/getBusiness\<close> sends, with the values
  bound to their parameters. The last one carries the \<open>BUID\<close> values that the handler
  splices into the \<open>IN (...)\<close> list (\<open>None\<close> for a row without the property).
\<close>

datatype query =
  GroupQuery int
| BusinessOfVertical string
| BuidQuery int
| BusinessOfVerticalIn string "cell option list"

datatype body = Payload "row list" bool | ErrorBody string

record response =
  status :: nat
  body :: body

definition internal_server_error :: response where
  "internal_server_error = \<lparr>status = 500, body = ErrorBody ''Internal server error''\<rparr>"

text \<open>JavaScript's conversion of an integer to a string, for the template literal.\<close>

function digits :: "nat \<Rightarrow> string" where
  "digits n =
     (if n < 10 then [''0123456789'' ! n]
      else digits (n div 10) @ [''0123456789'' ! (n mod 10)])"
  by pat_completeness auto
termination
  by (relation "measure id") auto

declare digits.simps [simp del]

definition number_string :: "int \<Rightarrow> string" where
  "number_string i = (if i < 0 then ''-'' @ digits (nat (- i)) else digits (nat i))"

definition business_cacheKey :: "int \<Rightarrow> int \<Rightarrow> string \<Rightarrow> string" where
  "business_cacheKey b u v =
     ''business_'' @ number_string b @ ''_'' @ number_string u @ ''_'' @ v"

definition group_security :: "row list \<Rightarrow> bool" where
  "group_security groupResult =
     (case groupResult of
        [] \<Rightarrow> False
      | r # _ \<Rightarrow> map_get ''ANALYTICS_GROUP_LEVEL_NAME'' r = Some (Str ''GROUP SECURITY''))"

text \<open>
  The handler. \<open>executeQuery\<close> is \<open>databaseService.executeQuery\<close>, which returns the
  record set or throws (\<open>None\<close>); \<open>cachedData\<close> is what \<open>cacheService.get(cacheKey)\<close>
  returned (a record set is an array, so it is truthy whenever it is not \<open>null\<close>). The
  result is the response and the \<open>cacheService.set\<close> call the handler makes, if any:
  key, data and time-to-live. Every exception ends in the 500 response of the \<open>catch\<close>.
\<close>

definition getBusiness ::
  "(query \<Rightarrow> row list option) \<Rightarrow> row list option \<Rightarrow> int \<Rightarrow> int \<Rightarrow> string
     \<Rightarrow> response \<times> (string \<times> row list \<times> int) option" where
  "getBusiness executeQuery cachedData b u v =
     (case cachedData of
        Some d \<Rightarrow> (\<lparr>status = 200, body = Payload d True\<rparr>, None)
      | None \<Rightarrow>
         (case executeQuery (GroupQuery b) of
            None \<Rightarrow> (internal_server_error, None)
          | Some groupResult \<Rightarrow>
             if group_security groupResult then
               (case executeQuery (BusinessOfVertical v) of
                  None \<Rightarrow> (internal_server_error, None)
                | Some businessData \<Rightarrow>
                    (\<lparr>status = 200, body = Payload businessData False\<rparr>,
                     Some (business_cacheKey b u v, businessData, 300000)))
             else
               (case executeQuery (BuidQuery u) of
                  None \<Rightarrow> (internal_server_error, None)
                | Some buidResult \<Rightarrow>
                    if length buidResult > 0 then
                      (case executeQuery
                              (BusinessOfVerticalIn v (map (map_get ''BUID'') buidResult)) of
                         None \<Rightarrow> (internal_server_error, None)
                       | Some businessData \<Rightarrow>
                           (\<lparr>status = 200, body = Payload businessData False\<rparr>,
                            Some (business_cacheKey b u v, businessData, 300000)))
                    else (\<lparr>status = 404, body = ErrorBody ''No matching BUID found''\<rparr>, None))))"

text \<open>
  The cache service the routes import, as a pair of operations on a cache state; each
  takes the clock reading. The route reads the cache at time \<open>now\<close>, runs the handler
  and makes the handler's \<open>set\<close> call at time \<open>now'\<close>.
\<close>

record 'c cache_service =
  service_get :: "string \<Rightarrow> int \<Rightarrow> 'c \<Rightarrow> row list option \<times> 'c"
  service_set :: "string \<Rightarrow> row list \<Rightarrow> int \<Rightarrow> int \<Rightarrow> 'c \<Rightarrow> 'c"

definition getBusiness_route ::
  "'c cache_service \<Rightarrow> (query \<Rightarrow> row list option) \<Rightarrow> int \<Rightarrow> int \<Rightarrow> int \<Rightarrow> int \<Rightarrow> string
     \<Rightarrow> 'c \<Rightarrow> response \<times> 'c" where
  "getBusiness_route svc executeQuery now now' b u v c =
     (case service_get svc (business_cacheKey b u v) now c of
        (cachedData, c1) \<Rightarrow>
          (case getBusiness executeQuery cachedData b u v of
             (res, None) \<Rightarrow> (res, c1)
           | (res, Some (k, d, t)) \<Rightarrow> (res, service_set svc k d t now' c1)))"

text \<open>
  Modelled from the spec: \<open>cacheService\<close> (server/services/cache) is not among the
  sources. It is the TTL cache of sections 3 and 4.1 of the specification, word by
  word: an entry holds its value, the time it was created and its time-to-live; the
  store is a map from keys to entries, in insertion order, bounded by \<open>maxSize\<close>;
  \<open>set\<close> on a store at capacity evicts the single oldest-inserted entry before
  inserting; \<open>get\<close> returns the value of an entry that is present and not expired,
  removes an entry it finds expired, and records a hit or a miss; the expiry comparison
  is \<open>now >= expiry\<close> with \<open>expiry = createdAt + ttl\<close>.
\<close>

record 'v spec_entry =
  entry_value :: 'v
  createdAt :: int
  entry_ttl :: int

record 'v spec_cache =
  spec_entries :: "(string, 'v spec_entry) jsmap"
  spec_maxSize :: nat
  spec_hits :: nat
  spec_misses :: nat

definition new_spec_cache :: "nat \<Rightarrow> 'v spec_cache" where
  "new_spec_cache m = \<lparr>spec_entries = [], spec_maxSize = m, spec_hits = 0, spec_misses = 0\<rparr>"

definition spec_get :: "string \<Rightarrow> int \<Rightarrow> 'v spec_cache \<Rightarrow> 'v option \<times> 'v spec_cache" where
  "spec_get key now c =
     (case map_get key (spec_entries c) of
        None \<Rightarrow> (None, c\<lparr>spec_misses := spec_misses c + 1\<rparr>)
      | Some e \<Rightarrow>
          if now \<ge> createdAt e + entry_ttl e
          then (None, c\<lparr>spec_entries := map_delete key (spec_entries c),
                         spec_misses := spec_misses c + 1\<rparr>)
          else (Some (entry_value e), c\<lparr>spec_hits := spec_hits c + 1\<rparr>))"

definition spec_set :: "string \<Rightarrow> 'v \<Rightarrow> int \<Rightarrow> int \<Rightarrow> 'v spec_cache \<Rightarrow> 'v spec_cache" where
  "spec_set key v t now c =
     (let kept = (if length (spec_entries c) \<ge> spec_maxSize c
                  then drop 1 (spec_entries c) else spec_entries c)
      in c\<lparr>spec_entries :=
             map_set key \<lparr>entry_value = v, createdAt = now, entry_ttl = t\<rparr> kept\<rparr>)"

definition spec_cache_service :: "(row list) spec_cache cache_service" where
  "spec_cache_service = \<lparr>service_get = spec_get, service_set = spec_set\<rparr>"

section \<open>The tables and what the queries return\<close>

text \<open>
  The tables the business queries read, with the columns they use. In \<open>USERGROUPS\<close> the
  identifier columns may be \<open>NULL\<close>. \<open>USERBUSINESS\<close> is read only by the query of
  the performance module.

  \<^item> \<open>ANALYTICS_GROUPS\<close>: \<open>ANALYTICS_GROUP_ID\<close>, \<open>ANALYTICS_GROUP_LEVEL_NAME\<close>
  \<^item> \<open>USERGROUPS\<close>: \<open>USERID\<close>, \<open>VID\<close>, \<open>BUID\<close>, \<open>SIID\<close>
  \<^item> \<open>VERTICAL_table\<close>: \<open>VID\<close>, \<open>VNAME\<close>, \<open>VSTATUS\<close>
  \<^item> \<open>BUSINESS_table\<close>: \<open>BUID\<close>, \<open>BUNAME\<close>, \<open>VID\<close>, \<open>BUSTATUS\<close>
  \<^item> \<open>USERBUSINESS\<close>: \<open>USERID\<close>, \<open>BUID\<close>
\<close>

record database =
  ANALYTICS_GROUPS :: "(int \<times> string) list"
  USERGROUPS :: "(int \<times> int option \<times> int option \<times> int option) list"
  VERTICAL_table :: "(int \<times> string \<times> string) list"
  BUSINESS_table :: "(int \<times> string \<times> int \<times> string) list"
  USERBUSINESS :: "(int \<times> int) list"

definition buname_rows :: "string list \<Rightarrow> row list" where
  "buname_rows names = map (\<lambda>n. [(''BUNAME'', Str n)]) (remdups names)"

text \<open>
  \<open>SELECT DISTINCT B.BUNAME FROM BUSINESS B JOIN VERTICAL V ON B.VID = V.VID WHERE
  V.VNAME = @vertical [AND BUID IN (...)] AND B.BUSTATUS = 'ACTIVE'\<close>. The rows come in
  table order: the order that \<open>ORDER BY\<close> gives depends on the collation of the
  database, and so does the comparison of strings, which is taken to be equality.
\<close>

definition business_of_vertical :: "database \<Rightarrow> string \<Rightarrow> (int \<Rightarrow> bool) \<Rightarrow> string list" where
  "business_of_vertical db v allowed =
     [fst (snd bu). bu \<leftarrow> BUSINESS_table db, ve \<leftarrow> VERTICAL_table db,
        fst (snd (snd bu)) = fst ve, fst (snd ve) = v,
        allowed (fst bu), snd (snd (snd bu)) = ''ACTIVE'']"

fun int_cell :: "int option \<Rightarrow> cell" where
  "int_cell None = Null"
| "int_cell (Some i) = Num i"

fun in_list_value :: "cell option \<Rightarrow> int option" where
  "in_list_value (Some (Num i)) = Some i"
| "in_list_value _ = None"

text \<open>
  A database that answers every well-formed query. The \<open>IN (...)\<close> list is the values
  joined with commas; a \<open>NULL\<close> or missing value leaves an empty item, which the server
  rejects, so the query throws.
\<close>

fun executeQuery_on :: "database \<Rightarrow> query \<Rightarrow> row list option" where
  "executeQuery_on db (GroupQuery b) =
     Some [[(''ANALYTICS_GROUP_LEVEL_NAME'', Str (snd g))]. g \<leftarrow> ANALYTICS_GROUPS db, fst g = b]"
| "executeQuery_on db (BusinessOfVertical v) =
     Some (buname_rows (business_of_vertical db v (\<lambda>i. True)))"
| "executeQuery_on db (BuidQuery u) =
     Some (map (\<lambda>x. [(''BUID'', int_cell x)])
            (remdups [fst (snd (snd g)). g \<leftarrow> USERGROUPS db, fst g = u]))"
| "executeQuery_on db (BusinessOfVerticalIn v buids) =
     (if None \<in> set (map in_list_value buids) then None
      else Some (buname_rows
        (business_of_vertical db v (\<lambda>i. Some i \<in> set (map in_list_value buids)))))"

text \<open>
  \<open>optimizedQueries.getBusiness\<close> of the performance module:
  \<open>... WHERE UB.USERID = @userId AND (@vertical = 'All' OR B.VID IN (SELECT VID FROM
  VERTICAL WHERE VNAME = @vertical))\<close>.
\<close>

definition optimized_getBusiness :: "database \<Rightarrow> int \<Rightarrow> string \<Rightarrow> row list" where
  "optimized_getBusiness db u v =
     buname_rows
       [fst (snd bu). bu \<leftarrow> BUSINESS_table db, ub \<leftarrow> USERBUSINESS db,
          fst bu = snd ub, fst ub = u,
          v = ''All'' \<or> fst (snd (snd bu)) \<in> set [fst ve. ve \<leftarrow> VERTICAL_table db, fst (snd ve) = v]]"

text \<open>
  The full business list of a caller's authorization scope: every active business
  under group security, and otherwise every active business among the caller's
  \<open>BUID\<close>s.
\<close>

definition full_business_list :: "database \<Rightarrow> int \<Rightarrow> int \<Rightarrow> string list" where
  "full_business_list db b u =
     remdups [fst (snd bu). bu \<leftarrow> BUSINESS_table db,
        snd (snd (snd bu)) = ''ACTIVE'',
        (case executeQuery_on db (GroupQuery b) of
           Some g \<Rightarrow> group_security g | None \<Rightarrow> False)
        \<or> Some (fst bu) \<in> set [fst (snd (snd g)). g \<leftarrow> USERGROUPS db, fst g = u]]"

section \<open>Notions used to state the properties\<close>

text \<open>
  \<open>stamped key created t s\<close>: if the client cache holds an entry for \<open>key\<close>, it is one
  written at time \<open>created\<close> with time-to-live \<open>t\<close>.
\<close>

definition stamped :: "string \<Rightarrow> int \<Rightarrow> int \<Rightarrow> 'v FrontendCache \<Rightarrow> bool" where
  "stamped key created t s =
     (case map_get key (cache s) of None \<Rightarrow> True
      | Some item \<Rightarrow> timestamp item = created \<and> ttl item = t)"

text \<open>
  \<open>expires_at key e s\<close>: if the server cache holds \<open>key\<close>, its recorded expiry is \<open>e\<close>.
\<close>

definition expires_at :: "string \<Rightarrow> int \<Rightarrow> 'v CacheManager \<Rightarrow> bool" where
  "expires_at key e s = (map_has key (cm_cache s) \<longrightarrow> map_get key (cm_ttl s) = Some e)"

text \<open>
  The invariant of the reachable \<open>CacheManager\<close> states: the keys are distinct, the two
  maps hold the same keys in the same order, and the size is within \<open>maxSize\<close>, which
  stays 1000.
\<close>

definition manager_inv :: "'v CacheManager \<Rightarrow> bool" where
  "manager_inv s =
     (distinct (map_keys (cm_cache s)) \<and> map_keys (cm_ttl s) = map_keys (cm_cache s)
      \<and> length (cm_cache s) \<le> maxSize s \<and> maxSize s = 1000)"

text \<open>
  A call sequence that fills the cache: \<open>n\<close> calls of \<open>set\<close> on \<open>n\<close> different keys
  (the key of call \<open>i\<close> is \<open>i\<close> letters \<open>a\<close>), call \<open>i\<close> at time \<open>i\<close>.
\<close>

definition fill_calls :: "nat \<Rightarrow> (int \<times> nat manager_call) list" where
  "fill_calls n = map (\<lambda>i. (int i, MSet (replicate i CHR ''a'') i 300000)) [0..<n]"

text \<open>
  When a key entered the server cache. \<open>entered cs k\<close> is the position, in the call
  sequence \<open>cs\<close>, of the call that put the key \<open>k\<close> into the map, for a key that has
  been in the map ever since; it is \<open>None\<close> for a key that is not in the map. It is
  kept by presence alone, not by the order of the map: a \<open>set\<close> on a key that is still
  in the map after the eviction step leaves the key's position as it is, a \<open>set\<close> on
  any other key gives it the position of this call, and every call forgets the keys it
  removes. A read changes nothing for a key that stays.
\<close>

fun entered_step ::
  "nat \<Rightarrow> int \<Rightarrow> 'v manager_call \<Rightarrow> 'v CacheManager \<Rightarrow> (string \<rightharpoonup> nat) \<Rightarrow> (string \<rightharpoonup> nat)" where
  "entered_step i now (MSet key v t) s g =
     (let g1 = g |` set (map_keys (cm_cache (evict_if_full s)))
      in if map_has key (cm_cache (evict_if_full s)) then g1 else g1(key \<mapsto> i))"
| "entered_step i now c s g = g |` set (map_keys (cm_cache (CacheManager_call now c s)))"

fun entered_run ::
  "nat \<Rightarrow> (int \<times> 'v manager_call) list \<Rightarrow> 'v CacheManager \<Rightarrow> (string \<rightharpoonup> nat)
     \<Rightarrow> (string \<rightharpoonup> nat)" where
  "entered_run i [] s g = g"
| "entered_run i (c # cs) s g =
     entered_run (Suc i) cs (CacheManager_call (fst c) (snd c) s)
       (entered_step i (fst c) (snd c) s g)"

definition entered :: "(int \<times> 'v manager_call) list \<Rightarrow> string \<Rightarrow> nat option" where
  "entered cs = entered_run 0 cs new_CacheManager Map.empty"

definition before :: "(string \<rightharpoonup> nat) \<Rightarrow> string \<Rightarrow> string \<Rightarrow> bool" where
  "before g a b = (case (g a, g b) of (Some i, Some j) \<Rightarrow> i < j | _ \<Rightarrow> False)"

text \<open>
  \<open>entered_order i ks g\<close>: the keys \<open>ks\<close> are the keys \<open>g\<close> knows, every position is
  below \<open>i\<close>, and \<open>ks\<close> lists the keys from the one that entered first to the one that
  entered last.
\<close>

definition entered_order :: "nat \<Rightarrow> string list \<Rightarrow> (string \<rightharpoonup> nat) \<Rightarrow> bool" where
  "entered_order i ks g =
     (dom g = set ks \<and> (\<forall>k j. g k = Some j \<longrightarrow> j < i) \<and> sorted_wrt (before g) ks)"

text \<open>
  A call sequence with reads and an overwrite: 999 calls of \<open>set\<close> on different keys,
  then a read of the key set first (the empty string), then a \<open>set\<close> that overwrites
  it, then a \<open>set\<close> on one more key, which fills the cache.
\<close>

definition busy_calls :: "(int \<times> nat manager_call) list" where
  "busy_calls =
     fill_calls 999 @
     [(2000, MGet []), (2001, MSet [] 5 300000), (2002, MSet (replicate 999 CHR ''a'') 999 300000)]"

text \<open>
  The invariant of a debounced function: at most one timer is pending, it is the one
  whose handle the closure variable holds, and every handle handed out is below the
  counter.
\<close>

definition debounce_inv :: "'a debounced \<Rightarrow> bool" where
  "debounce_inv s =
     ((pending s = [] \<or> (\<exists>h due a. pending s = [(h, due, a)] \<and> timeout s = Some h))
      \<and> (\<forall>h. timeout s = Some h \<longrightarrow> h < next_handle s))"

text \<open>
  \<open>same_calls s s'\<close> relates a state \<open>s\<close> of the two-argument \<open>debounce\<close> to a state
  \<open>s'\<close> of the three-argument one: the same timers and the same calls of \<open>func\<close>; the
  closure variables agree, or the second was reset to \<open>null\<close> by a timer that ran.
\<close>

definition same_calls :: "'a debounced \<Rightarrow> 'a debounced \<Rightarrow> bool" where
  "same_calls s s' =
     (pending s' = pending s \<and> next_handle s' = next_handle s \<and> invocations s' = invocations s
      \<and> (timeout s' = timeout s \<or> (timeout s' = None \<and> pending s = [])))"

text \<open>
  A database for the scenarios: bucket 1 is under group security, bucket 2 is not; user
  7 is associated with business 10, user 99 with nothing; the one vertical is Energy,
  with the active business Power Generation.
\<close>

definition scenario_db :: database where
  "scenario_db =
     \<lparr>ANALYTICS_GROUPS = [(1, ''GROUP SECURITY''), (2, ''USER LEVEL'')],
      USERGROUPS = [(7, Some 1, Some 10, None)],
      VERTICAL_table = [(1, ''Energy'', ''ACTIVE'')],
      BUSINESS_table = [(10, ''Power Generation'', 1, ''ACTIVE'')],
      USERBUSINESS = [(7, 10)]\<rparr>"

text \<open>
  A hook state with every filter set, and a server cache that holds, since time 0 and
  for five minutes, a business list for bucket 1, user 1 and vertical Energy that the
  database no longer has.
\<close>

definition scenario_hook :: "(row list) hook" where
  "scenario_hook =
     \<lparr>hook_filters = \<lparr>vertical = ''Energy'', business = ''Power Generation'', site = ''Mundra Port'',
          year = ''2024'', month = ''1'', date = []\<rparr>,
      bucketId = 1, userId = 1,
      frontendCache = FrontendCache_set ''k'' (Some []) 300000 0 new_FrontendCache\<rparr>"

definition scenario_server :: "(row list) spec_cache" where
  "scenario_server =
     spec_set ''business_1_1_Energy'' [[(''BUNAME'', Str ''Coal Mining'')]] 300000 0
       (new_spec_cache 1000)"

text \<open>
  A server cache with room for 1000 entries, filled by 1000 business requests of user 1
  in bucket 1 against the scenario database: the first, at time 0, for the vertical
  Energy, and request \<open>n\<close>, at time \<open>n\<close>, for a vertical named with \<open>n\<close> letters
  \<open>x\<close>. Each request misses and stores the list it got.
\<close>

fun fill_server :: "nat \<Rightarrow> (row list) spec_cache" where
  "fill_server 0 =
     snd (getBusiness_route spec_cache_service (executeQuery_on scenario_db) 0 0 1 1 ''Energy''
            (new_spec_cache 1000))"
| "fill_server (Suc n) =
     snd (getBusiness_route spec_cache_service (executeQuery_on scenario_db)
            (int n + 1) (int n + 1) 1 1 (replicate (Suc n) CHR ''x'') (fill_server n))"

definition scenario_full_server :: "(row list) spec_cache" where
  "scenario_full_server = fill_server 999"

text \<open>A page state: vertical Energy, business \<open>All\<close>, the year 2024.\<close>

definition scenario_page :: page where
  "scenario_page =
     \<lparr>filters = \<lparr>vertical = ''Energy'', business = ''All'', site = [], year = ''2024'',
          month = ''1'', date = []\<rparr>,
      options = Map.empty, loading = Map.empty, cached = Map.empty,
      page_metrics = \<lparr>loadTime = 0, filterChanges = 0, cacheHits = 0, apiCalls = 0\<rparr>,
      page_cache = [(''k'', ([], 0))]\<rparr>"

section \<open>Properties of the JavaScript Map model\<close>

lemma map_get_set: "map_get k (map_set k' v m) = (if k = k' then Some v else map_get k m)"
  by (induction m) (auto simp: map_get_def)

lemma map_get_delete: "map_get k (map_delete k' m) = (if k = k' then None else map_get k m)"
  by (induction m) (auto simp: map_get_def map_delete_def)

lemma map_has_get: "map_has k m = (map_get k m \<noteq> None)"
  by (simp add: map_has_def map_get_def)

lemma map_keys_set:
  "map_keys (map_set k v m) = (if k \<in> set (map_keys m) then map_keys m else map_keys m @ [k])"
  by (induction m) (force simp: map_keys_def)+

lemma map_keys_delete: "map_keys (map_delete k m) = filter (\<lambda>x. x \<noteq> k) (map_keys m)"
  by (induction m) (auto simp: map_keys_def map_delete_def)

lemma map_has_keys: "map_has k m = (k \<in> set (map_keys m))"
  by (induction m) (auto simp: map_keys_def map_has_def)

lemma map_get_Nil [simp]: "map_get k [] = None"
  by (simp add: map_get_def)

lemma map_get_filter_keys:
  "map_get k (filter (\<lambda>p. Q (fst p)) m) = (if Q k then map_get k m else None)"
  by (induction m) (auto simp: map_get_def)

lemma length_map_keys [simp]: "length (map_keys m) = length m"
  by (simp add: map_keys_def)

lemma map_keys_Nil [simp]: "map_keys [] = []"
  by (simp add: map_keys_def)

lemma map_set_new: "k \<notin> set (map_keys m) \<Longrightarrow> map_set k v m = m @ [(k, v)]"
  by (induction m) (auto simp: map_keys_def)

lemma length_map_set: "length (map_set k v m) \<le> Suc (length m)"
  by (induction m) auto

lemma delete_first:
  assumes "distinct (map_keys m)" and "m = p # rest"
  shows "map_delete (fst p) m = rest"
proof -
  have "fst p \<notin> fst ` set rest"
    using assms by (simp add: map_keys_def)
  then have "\<forall>q \<in> set rest. fst q \<noteq> fst p"
    by (metis imageI)
  then have "filter (\<lambda>q. fst q \<noteq> fst p) rest = rest"
    by (simp add: filter_id_conv)
  then show ?thesis using assms(2) by (simp add: map_delete_def)
qed

section \<open>The client cache: timers and entries\<close>

lemma cache_fold_callbacks:
  "cache (fold (\<lambda>p. timer_callback (snd p)) ps s) =
     filter (\<lambda>q. fst q \<notin> snd ` set ps) (cache s)"
proof (induction ps arbitrary: s)
  case Nil
  then show ?case by simp
next
  case (Cons p ps)
  have "cache (timer_callback (snd p) s) = filter (\<lambda>q. fst q \<noteq> snd p) (cache s)"
    by (simp add: timer_callback_def map_delete_def)
  then show ?case
    by (simp add: Cons.IH conj_commute)
qed

lemma hits_fold_callbacks [simp]:
  "hits (fold (\<lambda>p. timer_callback (snd p)) ps s) = hits s"
  by (induction ps arbitrary: s) (simp_all add: timer_callback_def)

lemma misses_fold_callbacks [simp]:
  "misses (fold (\<lambda>p. timer_callback (snd p)) ps s) = misses s"
  by (induction ps arbitrary: s) (simp_all add: timer_callback_def)

lemma cache_run_timers:
  "cache (run_timers now s) =
     filter (\<lambda>q. fst q \<notin> snd ` {p \<in> set (timers s). can_run now p}) (cache s)"
  by (simp add: run_timers_def cache_fold_callbacks)

lemma timers_run_timers:
  "timers (run_timers now s) = filter (\<lambda>p. \<not> can_run now p) (timers s)"
  by (simp add: run_timers_def)

lemma map_get_run_timers:
  "map_get k (cache (run_timers now s)) =
     (if k \<in> snd ` {p \<in> set (timers s). can_run now p} then None else map_get k (cache s))"
  unfolding cache_run_timers
  using map_get_filter_keys [of k "\<lambda>x. x \<notin> snd ` {p \<in> set (timers s). can_run now p}" "cache s"]
  by simp

lemma timers_event:
  "p \<in> set (timers s) \<Longrightarrow> (e = TimersFire \<longrightarrow> \<not> can_run now p) \<Longrightarrow>
   p \<in> set (timers (FrontendCache_event now e s))"
  by (cases e)
     (auto simp: FrontendCache_set_def FrontendCache_get_def FrontendCache_has_def
        FrontendCache_clear_def timers_run_timers split: option.splits)

lemma timers_events:
  "p \<in> set (timers s) \<Longrightarrow> \<forall>e \<in> set es. snd e = TimersFire \<longrightarrow> \<not> can_run (fst e) p \<Longrightarrow>
   p \<in> set (timers (FrontendCache_events es s))"
proof (induction es arbitrary: s)
  case Nil
  then show ?case by simp
next
  case (Cons e es)
  have "p \<in> set (timers (FrontendCache_event (fst e) (snd e) s))"
    using Cons.prems by (intro timers_event) auto
  then show ?case using Cons by simp
qed

lemma stamped_set: "stamped key created t (FrontendCache_set key d t created s)"
  by (simp add: stamped_def FrontendCache_set_def map_get_set)

lemma stamped_event:
  "stamped key created t s \<Longrightarrow> \<not> sets_key key e \<Longrightarrow>
   stamped key created t (FrontendCache_event now e s)"
  by (cases e)
     (auto simp: stamped_def FrontendCache_set_def FrontendCache_get_def FrontendCache_has_def
        FrontendCache_clear_def map_get_set map_get_delete map_get_run_timers
        split: option.splits if_splits)

lemma stamped_events:
  "stamped key created t s \<Longrightarrow> \<forall>e \<in> set es. \<not> sets_key key (snd e) \<Longrightarrow>
   stamped key created t (FrontendCache_events es s)"
  by (induction es arbitrary: s) (simp_all add: stamped_event)

lemma stamped_get:
  "stamped key created t s \<Longrightarrow> created + t < now \<Longrightarrow> fst (FrontendCache_get key now s) = None"
  by (auto simp: stamped_def FrontendCache_get_def split: option.splits)

section \<open>The server cache: expiry and the invariant\<close>

lemma expires_at_delete:
  "expires_at key e s \<Longrightarrow> expires_at key e (CacheManager_delete k s)"
  by (simp add: expires_at_def CacheManager_delete_def map_has_get map_get_delete)

lemma expires_at_evict:
  "expires_at key e s \<Longrightarrow> expires_at key e (evict_if_full s)"
  by (simp add: evict_if_full_def expires_at_delete split: option.split)

lemma expires_at_set_other:
  "expires_at key e s \<Longrightarrow> k \<noteq> key \<Longrightarrow> expires_at key e (CacheManager_set k v t now s)"
  using expires_at_evict [of key e s]
  by (simp add: CacheManager_set_def Let_def expires_at_def map_has_get map_get_set)

lemma expires_at_set: "expires_at key (now + t) (CacheManager_set key v t now s)"
  by (simp add: CacheManager_set_def Let_def expires_at_def map_get_set)

lemma expires_at_get:
  "expires_at key e s \<Longrightarrow> expires_at key e (snd (CacheManager_get k now s))"
  by (simp add: CacheManager_get_def expires_at_delete)

lemma expires_at_fold:
  "expires_at key e s \<Longrightarrow>
   expires_at key e
     (fold (\<lambda>p s'. if now > snd p then CacheManager_delete (fst p) s' else s') ps s)"
  by (induction ps arbitrary: s) (simp_all add: expires_at_delete)

lemma snd_CacheManager_has:
  "snd (CacheManager_has k now s) = snd (CacheManager_get k now s)"
  by (simp add: CacheManager_has_def split: prod.split)

lemma expires_at_call:
  "expires_at key e s \<Longrightarrow> \<not> msets_key key c \<Longrightarrow> expires_at key e (CacheManager_call now c s)"
proof (cases c)
  case (MHas k)
  assume "expires_at key e s"
  then show ?thesis
    using MHas by (simp add: snd_CacheManager_has expires_at_get)
next
  case MClear
  then show ?thesis by (simp add: CacheManager_clear_def expires_at_def map_has_def)
qed (simp_all add: expires_at_set_other expires_at_get expires_at_delete
      CacheManager_cleanup_def expires_at_fold)

lemma expires_at_calls:
  "expires_at key e s \<Longrightarrow> \<forall>c \<in> set cs. \<not> msets_key key (snd c) \<Longrightarrow>
   expires_at key e (CacheManager_calls cs s)"
  by (induction cs arbitrary: s) (simp_all add: expires_at_call)

lemma expired_get:
  "expires_at key e s \<Longrightarrow> e < now \<Longrightarrow> fst (CacheManager_get key now s) = None"
  by (simp add: expires_at_def CacheManager_get_def)

lemma inv_new: "manager_inv new_CacheManager"
  by (simp add: manager_inv_def new_CacheManager_def)

lemma inv_delete: "manager_inv s \<Longrightarrow> manager_inv (CacheManager_delete k s)"
proof -
  assume a: "manager_inv s"
  have "length (map_delete k (cm_cache s)) \<le> length (cm_cache s)"
    by (simp add: map_delete_def)
  with a show ?thesis
    by (simp add: manager_inv_def CacheManager_delete_def map_keys_delete)
qed

lemma inv_clear: "manager_inv s \<Longrightarrow> manager_inv (CacheManager_clear s)"
  by (simp add: manager_inv_def CacheManager_clear_def)

lemma inv_get: "manager_inv s \<Longrightarrow> manager_inv (snd (CacheManager_get k now s))"
  by (simp add: CacheManager_get_def inv_delete)

lemma inv_fold:
  "manager_inv s \<Longrightarrow>
   manager_inv (fold (\<lambda>p s'. if now > snd p then CacheManager_delete (fst p) s' else s') ps s)"
  by (induction ps arbitrary: s) (simp_all add: inv_delete)

lemma evict_full:
  assumes "manager_inv s" and "length (cm_cache s) = maxSize s"
  shows "cm_cache s \<noteq> []"
    and "cm_cache (evict_if_full s) = tl (cm_cache s)"
    and "cm_ttl (evict_if_full s) = tl (cm_ttl s)"
    and "maxSize (evict_if_full s) = maxSize s"
proof -
  from assms have len: "length (cm_cache s) = 1000" by (simp add: manager_inv_def)
  then show ne: "cm_cache s \<noteq> []" by auto
  then obtain p rest where c: "cm_cache s = p # rest" by (cases "cm_cache s") auto
  from assms(1) have k: "map_keys (cm_ttl s) = map_keys (cm_cache s)"
    and d: "distinct (map_keys (cm_cache s))" by (simp_all add: manager_inv_def)
  from k c obtain q trest where t: "cm_ttl s = q # trest" and f: "fst q = fst p"
    by (cases "cm_ttl s") (auto simp: map_keys_def)
  have dt: "distinct (map_keys (cm_ttl s))" using k d by simp
  have ev: "evict_if_full s = CacheManager_delete (fst p) s"
    using assms(2) c by (simp add: evict_if_full_def map_first_key_def)
  show "cm_cache (evict_if_full s) = tl (cm_cache s)"
    using delete_first [OF d c] c by (simp add: ev CacheManager_delete_def)
  show "cm_ttl (evict_if_full s) = tl (cm_ttl s)"
    using delete_first [OF dt t] t f by (simp add: ev CacheManager_delete_def)
  show "maxSize (evict_if_full s) = maxSize s"
    by (simp add: ev CacheManager_delete_def)
qed

lemma inv_evict: "manager_inv s \<Longrightarrow> manager_inv (evict_if_full s)"
  by (simp add: evict_if_full_def inv_delete split: option.split)

lemma evict_room:
  assumes "manager_inv s"
  shows "length (cm_cache (evict_if_full s)) < maxSize (evict_if_full s)"
proof (cases "length (cm_cache s) = maxSize s")
  case True
  from evict_full [OF assms True] assms True show ?thesis
    by (simp add: manager_inv_def)
next
  case False
  with assms have "length (cm_cache s) < maxSize s" by (simp add: manager_inv_def)
  then show ?thesis by (simp add: evict_if_full_def)
qed

lemma inv_set: "manager_inv s \<Longrightarrow> manager_inv (CacheManager_set k v t now s)"
proof -
  assume a: "manager_inv s"
  let ?s1 = "evict_if_full s"
  have i: "manager_inv ?s1" using a by (rule inv_evict)
  have r: "length (cm_cache ?s1) < maxSize ?s1" using a by (rule evict_room)
  have l: "length (map_set k v (cm_cache ?s1)) \<le> Suc (length (cm_cache ?s1))"
    by (rule length_map_set)
  from i r l show ?thesis
    by (simp add: CacheManager_set_def Let_def manager_inv_def map_keys_set)
qed

lemma inv_call: "manager_inv s \<Longrightarrow> manager_inv (CacheManager_call now c s)"
  by (cases c)
     (simp_all add: inv_set inv_get snd_CacheManager_has inv_delete inv_clear
        CacheManager_cleanup_def inv_fold)

lemma inv_calls: "manager_inv s \<Longrightarrow> manager_inv (CacheManager_calls cs s)"
  by (induction cs arbitrary: s) (simp_all add: inv_call)

lemma calls_append:
  "CacheManager_calls (xs @ ys) s = CacheManager_calls ys (CacheManager_calls xs s)"
  by (induction xs arbitrary: s) simp_all

lemma fill_state:
  "n \<le> 1000 \<Longrightarrow>
   CacheManager_calls (fill_calls n) new_CacheManager =
     \<lparr>cm_cache = map (\<lambda>i. (replicate i CHR ''a'', i)) [0..<n],
      cm_ttl = map (\<lambda>i. (replicate i CHR ''a'', int i + 300000)) [0..<n],
      defaultTTL = 300000, maxSize = 1000\<rparr>"
proof (induction n)
  case 0
  then show ?case by (simp add: fill_calls_def new_CacheManager_def)
next
  case (Suc n)
  let ?k = "replicate n CHR ''a''"
  let ?c = "map (\<lambda>i. (replicate i CHR ''a'', i)) [0..<n]"
  let ?t = "map (\<lambda>i. (replicate i CHR ''a'', int i + 300000)) [0..<n]"
  have new_c: "?k \<notin> set (map_keys ?c)"
    by (auto simp: map_keys_def dest: arg_cong [where f = length])
  have new_t: "?k \<notin> set (map_keys ?t)"
    by (auto simp: map_keys_def dest: arg_cong [where f = length])
  have split: "fill_calls (Suc n) = fill_calls n @ [(int n, MSet ?k n 300000)]"
    by (simp add: fill_calls_def)
  from Suc have prev: "CacheManager_calls (fill_calls n) new_CacheManager =
     \<lparr>cm_cache = ?c, cm_ttl = ?t, defaultTTL = 300000, maxSize = 1000\<rparr>" by simp
  show ?case
    using Suc.prems
    by (simp add: split calls_append prev CacheManager_set_def evict_if_full_def
        map_set_new [OF new_c] map_set_new [OF new_t])
qed

lemma keys_fold_cleanup:
  "map_keys (cm_cache
      (fold (\<lambda>p s'. if now > snd p then CacheManager_delete (fst p) s' else s') ps s)) =
   filter (\<lambda>k. k \<notin> fst ` {p \<in> set ps. now > snd p}) (map_keys (cm_cache s))"
proof (induction ps arbitrary: s)
  case Nil
  then show ?case by simp
next
  case (Cons p ps)
  show ?case
  proof (cases "now > snd p")
    case True
    then have "{q \<in> set (p # ps). now > snd q} = insert p {q \<in> set ps. now > snd q}"
      by auto
    then show ?thesis
      using True by (simp add: Cons.IH CacheManager_delete_def map_keys_delete conj_commute)
  next
    case False
    then have "{q \<in> set (p # ps). now > snd q} = {q \<in> set ps. now > snd q}"
      by auto
    then show ?thesis
      using False by (simp add: Cons.IH)
  qed
qed

lemma keys_evict:
  "\<exists>gone. map_keys (cm_cache (evict_if_full s)) = filter (\<lambda>k. k \<notin> gone) (map_keys (cm_cache s))"
proof (cases "evict_if_full s = s")
  case True
  have "map_keys (cm_cache s) = filter (\<lambda>k. k \<notin> {}) (map_keys (cm_cache s))" by simp
  with True show ?thesis by metis
next
  case False
  then obtain fk where "evict_if_full s = CacheManager_delete fk s"
    by (auto simp: evict_if_full_def split: if_splits option.splits)
  then have "map_keys (cm_cache (evict_if_full s)) = filter (\<lambda>k. k \<notin> {fk}) (map_keys (cm_cache s))"
    by (simp add: CacheManager_delete_def map_keys_delete)
  then show ?thesis by blast
qed

lemma keys_get:
  "\<exists>gone. map_keys (cm_cache (snd (CacheManager_get key now s))) =
      filter (\<lambda>k. k \<notin> gone) (map_keys (cm_cache s))"
proof (cases "snd (CacheManager_get key now s) = s")
  case True
  have "map_keys (cm_cache s) = filter (\<lambda>k. k \<notin> {}) (map_keys (cm_cache s))" by simp
  with True show ?thesis by metis
next
  case False
  then have "snd (CacheManager_get key now s) = CacheManager_delete key s"
    by (auto simp: CacheManager_get_def split: if_splits)
  then have "map_keys (cm_cache (snd (CacheManager_get key now s))) =
      filter (\<lambda>k. k \<notin> {key}) (map_keys (cm_cache s))"
    by (simp add: CacheManager_delete_def map_keys_delete)
  then show ?thesis by blast
qed

lemma order_kept:
  "ks' = filter (\<lambda>k. k \<notin> gone) ks \<Longrightarrow>
   \<exists>gone new. ks' = filter (\<lambda>k. k \<notin> gone) ks @ new \<and> length new \<le> 1"
  by (rule exI [of _ gone], rule exI [of _ "[]"]) simp

lemma keys_order_call:
  "\<exists>gone new. map_keys (cm_cache (CacheManager_call now c s)) =
      filter (\<lambda>k. k \<notin> gone) (map_keys (cm_cache s)) @ new \<and> length new \<le> 1"
proof (cases c)
  case (MSet key v t)
  obtain gone where g: "map_keys (cm_cache (evict_if_full s)) =
      filter (\<lambda>k. k \<notin> gone) (map_keys (cm_cache s))"
    using keys_evict by blast
  have "map_keys (cm_cache (CacheManager_call now c s)) =
      filter (\<lambda>k. k \<notin> gone) (map_keys (cm_cache s)) @
        (if key \<in> set (map_keys (cm_cache (evict_if_full s))) then [] else [key])"
    using g by (simp add: MSet CacheManager_set_def Let_def map_keys_set)
  moreover have "length (if key \<in> set (map_keys (cm_cache (evict_if_full s))) then [] else [key]) \<le> 1"
    by simp
  ultimately show ?thesis by blast
next
  case (MGet key)
  obtain gone where "map_keys (cm_cache (snd (CacheManager_get key now s))) =
      filter (\<lambda>k. k \<notin> gone) (map_keys (cm_cache s))"
    using keys_get by blast
  then show ?thesis unfolding MGet CacheManager_call.simps by (rule order_kept)
next
  case (MHas key)
  obtain gone where "map_keys (cm_cache (snd (CacheManager_get key now s))) =
      filter (\<lambda>k. k \<notin> gone) (map_keys (cm_cache s))"
    using keys_get by blast
  then show ?thesis
    unfolding MHas CacheManager_call.simps snd_CacheManager_has by (rule order_kept)
next
  case (MDelete key)
  have "map_keys (cm_cache (CacheManager_delete key s)) =
      filter (\<lambda>k. k \<notin> {key}) (map_keys (cm_cache s))"
    by (simp add: CacheManager_delete_def map_keys_delete)
  then show ?thesis unfolding MDelete CacheManager_call.simps by (rule order_kept)
next
  case MClear
  have "map_keys (cm_cache (CacheManager_clear s)) =
      filter (\<lambda>k. k \<notin> UNIV) (map_keys (cm_cache s))"
    by (simp add: CacheManager_clear_def)
  then show ?thesis unfolding MClear CacheManager_call.simps by (rule order_kept)
next
  case MCleanup
  have "map_keys (cm_cache (CacheManager_cleanup now s)) =
      filter (\<lambda>k. k \<notin> fst ` {p \<in> set (cm_ttl s). now > snd p}) (map_keys (cm_cache s))"
    by (simp add: CacheManager_cleanup_def keys_fold_cleanup)
  then show ?thesis unfolding MCleanup CacheManager_call.simps by (rule order_kept)
qed

section \<open>The server cache: the keys stand in the order in which they entered\<close>

lemma before_agree:
  "g' a = g a \<Longrightarrow> g' b = g b \<Longrightarrow> before g' a b = before g a b"
  by (simp add: before_def)

lemma entered_order_filter:
  assumes "entered_order i ks g"
  shows "entered_order i (filter P ks) (g |` set (filter P ks))"
proof -
  let ?ks = "filter P ks" and ?g = "g |` set (filter P ks)"
  from assms have d: "dom g = set ks" and b: "\<forall>k j. g k = Some j \<longrightarrow> j < i"
    and srt: "sorted_wrt (before g) ks" by (simp_all add: entered_order_def)
  have "dom ?g = set ?ks" using d by auto
  moreover have "\<forall>k j. ?g k = Some j \<longrightarrow> j < i"
    using b by (auto simp: restrict_map_def split: if_splits)
  moreover have "sorted_wrt (before ?g) ?ks"
  proof -
    have "sorted_wrt (before g) ?ks" using srt by (rule sorted_wrt_filter)
    moreover have "\<And>x y. x \<in> set ?ks \<Longrightarrow> y \<in> set ?ks \<Longrightarrow> before g x y \<Longrightarrow> before ?g x y"
      by (simp add: before_def)
    ultimately show ?thesis by (rule sorted_wrt_mono_rel [rotated])
  qed
  ultimately show ?thesis by (simp add: entered_order_def)
qed

lemma entered_order_Suc: "entered_order i ks g \<Longrightarrow> entered_order (Suc i) ks g"
  by (auto simp: entered_order_def less_Suc_eq)

lemma entered_order_append:
  assumes "entered_order i ks g" and "k \<notin> set ks"
  shows "entered_order (Suc i) (ks @ [k]) (g(k \<mapsto> i))"
proof -
  from assms(1) have d: "dom g = set ks" and b: "\<forall>k j. g k = Some j \<longrightarrow> j < i"
    and srt: "sorted_wrt (before g) ks" by (simp_all add: entered_order_def)
  have "dom (g(k \<mapsto> i)) = set (ks @ [k])" using d by auto
  moreover have "\<forall>k' j. (g(k \<mapsto> i)) k' = Some j \<longrightarrow> j < Suc i"
    using b by (auto simp: less_Suc_eq)
  moreover have "sorted_wrt (before (g(k \<mapsto> i))) (ks @ [k])"
  proof -
    have "\<And>x y. x \<in> set ks \<Longrightarrow> y \<in> set ks \<Longrightarrow> before g x y \<Longrightarrow> before (g(k \<mapsto> i)) x y"
      using assms(2) by (auto simp: before_def)
    with srt have "sorted_wrt (before (g(k \<mapsto> i))) ks" by (rule sorted_wrt_mono_rel [rotated])
    moreover have "\<forall>x \<in> set ks. before (g(k \<mapsto> i)) x k"
    proof
      fix x assume x: "x \<in> set ks"
      with d obtain j where "g x = Some j" by auto
      with b x assms(2) show "before (g(k \<mapsto> i)) x k" by (auto simp: before_def)
    qed
    ultimately show ?thesis by (simp add: sorted_wrt_append)
  qed
  ultimately show ?thesis by (simp add: entered_order_def)
qed

lemma keys_call_read:
  assumes "\<not> (\<exists>k v t. c = MSet k v t)"
  shows "\<exists>gone. map_keys (cm_cache (CacheManager_call now c s)) =
      filter (\<lambda>k. k \<notin> gone) (map_keys (cm_cache s))"
proof (cases c)
  case (MSet k v t)
  with assms show ?thesis by blast
next
  case (MGet key)
  then show ?thesis using keys_get [of key now s] by simp
next
  case (MHas key)
  then show ?thesis using keys_get [of key now s] by (simp add: snd_CacheManager_has)
next
  case (MDelete key)
  have "map_keys (cm_cache (CacheManager_delete key s)) =
      filter (\<lambda>k. k \<notin> {key}) (map_keys (cm_cache s))"
    by (simp add: CacheManager_delete_def map_keys_delete)
  then show ?thesis unfolding MDelete CacheManager_call.simps by (rule exI)
next
  case MClear
  have "map_keys (cm_cache (CacheManager_clear s)) =
      filter (\<lambda>k. k \<notin> UNIV) (map_keys (cm_cache s))"
    by (simp add: CacheManager_clear_def)
  then show ?thesis unfolding MClear CacheManager_call.simps by (rule exI)
next
  case MCleanup
  have "map_keys (cm_cache (CacheManager_cleanup now s)) =
      filter (\<lambda>k. k \<notin> fst ` {p \<in> set (cm_ttl s). now > snd p}) (map_keys (cm_cache s))"
    by (simp add: CacheManager_cleanup_def keys_fold_cleanup)
  then show ?thesis unfolding MCleanup CacheManager_call.simps by (rule exI)
qed

lemma entered_step_read:
  "\<not> (\<exists>k v t. c = MSet k v t) \<Longrightarrow>
   entered_step i now c s g = g |` set (map_keys (cm_cache (CacheManager_call now c s)))"
  by (cases c) auto

lemma entered_order_step:
  assumes "entered_order i (map_keys (cm_cache s)) g"
  shows "entered_order (Suc i) (map_keys (cm_cache (CacheManager_call now c s)))
           (entered_step i now c s g)"
proof (cases "\<exists>k v t. c = MSet k v t")
  case True
  then obtain key v t where c: "c = MSet key v t" by blast
  let ?s1 = "evict_if_full s"
  obtain gone where g: "map_keys (cm_cache ?s1) = filter (\<lambda>k. k \<notin> gone) (map_keys (cm_cache s))"
    using keys_evict by blast
  have o1: "entered_order i (map_keys (cm_cache ?s1)) (g |` set (map_keys (cm_cache ?s1)))"
    unfolding g using assms by (rule entered_order_filter)
  have keys: "map_keys (cm_cache (CacheManager_set key v t now s)) =
      (if key \<in> set (map_keys (cm_cache ?s1)) then map_keys (cm_cache ?s1)
       else map_keys (cm_cache ?s1) @ [key])"
    by (simp add: CacheManager_set_def Let_def map_keys_set)
  show ?thesis
  proof (cases "key \<in> set (map_keys (cm_cache ?s1))")
    case True
    then show ?thesis
      using o1 by (simp add: keys c Let_def map_has_keys entered_order_Suc)
  next
    case False
    then show ?thesis
      using entered_order_append [OF o1 False]
      by (simp add: keys c Let_def map_has_keys)
  qed
next
  case False
  then obtain gone where g: "map_keys (cm_cache (CacheManager_call now c s)) =
      filter (\<lambda>k. k \<notin> gone) (map_keys (cm_cache s))"
    using keys_call_read by blast
  have "entered_order i (map_keys (cm_cache (CacheManager_call now c s)))
      (g |` set (map_keys (cm_cache (CacheManager_call now c s))))"
    unfolding g using assms by (rule entered_order_filter)
  then show ?thesis
    by (simp add: entered_step_read [OF False] entered_order_Suc)
qed

lemma entered_order_run:
  "entered_order i (map_keys (cm_cache s)) g \<Longrightarrow>
   entered_order (i + length cs) (map_keys (cm_cache (CacheManager_calls cs s)))
     (entered_run i cs s g)"
proof (induction cs arbitrary: i s g)
  case Nil
  then show ?case by simp
next
  case (Cons c cs)
  have "entered_order (Suc i) (map_keys (cm_cache (CacheManager_call (fst c) (snd c) s)))
      (entered_step i (fst c) (snd c) s g)"
    using Cons.prems by (rule entered_order_step)
  from Cons.IH [OF this] show ?case by simp
qed

lemma entered_order_reachable:
  "entered_order (length cs) (map_keys (cm_cache (CacheManager_calls cs new_CacheManager)))
     (entered cs)"
proof -
  have "entered_order 0 (map_keys (cm_cache (new_CacheManager :: 'a CacheManager))) Map.empty"
    by (simp add: entered_order_def new_CacheManager_def)
  from entered_order_run [OF this, of cs] show ?thesis by (simp add: entered_def)
qed

lemma entered_run_append:
  "entered_run i (cs @ [c]) s g =
     entered_step (i + length cs) (fst c) (snd c) (CacheManager_calls cs s) (entered_run i cs s g)"
  by (induction cs arbitrary: i s g) simp_all

lemma entered_read_kept:
  assumes "k' \<in> set (map_keys (cm_cache (CacheManager_calls (cs @ [(now, MGet k)]) new_CacheManager)))"
  shows "entered (cs @ [(now, MGet k)]) k' = entered cs k'"
  using assms by (simp add: entered_def entered_run_append calls_append)

lemma entered_overwrite_kept:
  assumes "map_has k (cm_cache (evict_if_full (CacheManager_calls cs new_CacheManager)))"
  shows "entered (cs @ [(now, MSet k v t)]) k = entered cs k"
  using assms by (simp add: entered_def entered_run_append Let_def map_has_keys)

lemma busy_states:
  fixes stored :: "(string \<times> nat) list" and expiries :: "(string \<times> int) list"
  defines "stored \<equiv> map (\<lambda>i. (replicate i CHR ''a'', i)) [Suc 0..<999]"
    and "expiries \<equiv> map (\<lambda>i. (replicate i CHR ''a'', int i + 300000)) [Suc 0..<999]"
  shows "CacheManager_calls (fill_calls 999) new_CacheManager =
           \<lparr>cm_cache = ([], 0) # stored, cm_ttl = ([], 300000) # expiries, defaultTTL = 300000, maxSize = 1000\<rparr>"
    and "CacheManager_calls (fill_calls 999 @ [(2000, MGet [])]) new_CacheManager =
           \<lparr>cm_cache = ([], 0) # stored, cm_ttl = ([], 300000) # expiries, defaultTTL = 300000, maxSize = 1000\<rparr>"
    and "CacheManager_calls busy_calls new_CacheManager =
           \<lparr>cm_cache = ([], 5) # stored @ [(replicate 999 CHR ''a'', 999)],
            cm_ttl = ([], 302001) # expiries @ [(replicate 999 CHR ''a'', 302002)],
            defaultTTL = 300000, maxSize = 1000\<rparr>"
    and "length stored = 998"
proof -
  have u: "[0..<999] = 0 # [Suc 0..<999]" by (rule upt_conv_Cons) simp
  have len: "length stored = 998" "length expiries = 998" by (simp_all add: stored_def expiries_def)
  show "length stored = 998" by (rule len)
  have nc: "replicate 999 CHR ''a'' \<notin> set (map_keys (([], 5) # stored))"
    by (auto simp: map_keys_def stored_def dest: arg_cong [where f = length])
  have nt: "replicate 999 CHR ''a'' \<notin> set (map_keys (([], 302001) # expiries))"
    by (auto simp: map_keys_def expiries_def dest: arg_cong [where f = length])
  show s0: "CacheManager_calls (fill_calls 999) new_CacheManager =
           \<lparr>cm_cache = ([], 0) # stored, cm_ttl = ([], 300000) # expiries, defaultTTL = 300000, maxSize = 1000\<rparr>"
    unfolding stored_def expiries_def using fill_state [of 999] by (simp only: u list.map) simp
  show s1: "CacheManager_calls (fill_calls 999 @ [(2000, MGet [])]) new_CacheManager =
           \<lparr>cm_cache = ([], 0) # stored, cm_ttl = ([], 300000) # expiries, defaultTTL = 300000, maxSize = 1000\<rparr>"
    by (simp add: calls_append s0 CacheManager_get_def map_has_def map_get_def)
  have b: "busy_calls = (fill_calls 999 @ [(2000, MGet [])]) @
      [(2001, MSet [] 5 300000), (2002, MSet (replicate 999 CHR ''a'') 999 300000)]"
    by (simp add: busy_calls_def)
  have "CacheManager_calls busy_calls new_CacheManager =
      CacheManager_calls [(2001, MSet [] 5 300000), (2002, MSet (replicate 999 CHR ''a'') 999 300000)]
        \<lparr>cm_cache = ([], 0) # stored, cm_ttl = ([], 300000) # expiries, defaultTTL = 300000, maxSize = 1000\<rparr>"
    unfolding b by (subst calls_append) (simp only: s1)
  also have "\<dots> = \<lparr>cm_cache = ([], 5) # stored @ [(replicate 999 CHR ''a'', 999)],
            cm_ttl = ([], 302001) # expiries @ [(replicate 999 CHR ''a'', 302002)],
            defaultTTL = 300000, maxSize = 1000\<rparr>"
    using map_set_new [OF nc] map_set_new [OF nt] len
    by (simp add: CacheManager_set_def evict_if_full_def Let_def)
  finally show "CacheManager_calls busy_calls new_CacheManager =
           \<lparr>cm_cache = ([], 5) # stored @ [(replicate 999 CHR ''a'', 999)],
            cm_ttl = ([], 302001) # expiries @ [(replicate 999 CHR ''a'', 302002)],
            defaultTTL = 300000, maxSize = 1000\<rparr>" .
qed

section \<open>Claims about the caches\<close>

text \<open>
  C1 (as amended). An entry stored by \<open>set(key, value, ttl)\<close> at time \<open>created\<close> is absent
  for every \<open>get(key)\<close> at a time \<open>now > created + ttl\<close>, whatever calls happened in
  between as long as none of them set the key again, and whether or not a sweep or a
  timer has run. This holds for the server cache and for the client cache. The
  comparison is strict: an entry that is still stored is returned by \<open>get\<close> at every
  time up to and including its expiry \<open>created + ttl\<close>, and the state is left as it was
  but for the hit the client cache counts; so a \<open>get\<close> at the instant
  \<open>created + ttl\<close> that follows the \<open>set\<close> directly returns the value.
\<close>

theorem ttl_expiry_strict:
  assumes "created + t < now"
    and "\<forall>c \<in> set cs. \<not> msets_key key (snd c)"
    and "\<forall>e \<in> set es. \<not> sets_key key (snd e)"
  shows "fst (CacheManager_get key now
            (CacheManager_calls cs (CacheManager_set key v t created m))) = None
       \<and> fst (FrontendCache_get key now
            (FrontendCache_events es (FrontendCache_set key d t created f))) = None
       \<and> (map_get key (cm_cache m') = Some v' \<and> map_get key (cm_ttl m') = Some expiry
             \<and> tm \<le> expiry
           \<longrightarrow> CacheManager_get key tm m' = (Some v', m'))
       \<and> (map_get key (cache f') = Some item \<and> tm \<le> timestamp item + ttl item
           \<longrightarrow> FrontendCache_get key tm f' = (data item, f'\<lparr>hits := hits f' + 1\<rparr>))
       \<and> CacheManager_get key (created + t) (CacheManager_set key v t created m)
            = (Some v, CacheManager_set key v t created m)
       \<and> fst (FrontendCache_get key (created + t) (FrontendCache_set key d t created f)) = d"
proof (intro conjI impI)
  have "expires_at key (created + t) (CacheManager_calls cs (CacheManager_set key v t created m))"
    using assms(2) by (intro expires_at_calls expires_at_set)
  then show "fst (CacheManager_get key now
            (CacheManager_calls cs (CacheManager_set key v t created m))) = None"
    using assms(1) by (rule expired_get)
next
  have "stamped key created t (FrontendCache_events es (FrontendCache_set key d t created f))"
    using assms(3) by (intro stamped_events stamped_set)
  then show "fst (FrontendCache_get key now
            (FrontendCache_events es (FrontendCache_set key d t created f))) = None"
    using assms(1) by (rule stamped_get)
next
  assume "map_get key (cm_cache m') = Some v' \<and> map_get key (cm_ttl m') = Some expiry
             \<and> tm \<le> expiry"
  then show "CacheManager_get key tm m' = (Some v', m')"
    by (simp add: CacheManager_get_def map_has_get)
next
  assume "map_get key (cache f') = Some item \<and> tm \<le> timestamp item + ttl item"
  then show "FrontendCache_get key tm f' = (data item, f'\<lparr>hits := hits f' + 1\<rparr>)"
    by (simp add: FrontendCache_get_def)
next
  show "CacheManager_get key (created + t) (CacheManager_set key v t created m)
            = (Some v, CacheManager_set key v t created m)"
    by (simp add: CacheManager_get_def CacheManager_set_def Let_def map_has_get map_get_set)
next
  show "fst (FrontendCache_get key (created + t) (FrontendCache_set key d t created f)) = d"
    by (simp add: FrontendCache_get_def FrontendCache_set_def map_get_set)
qed

theorem ttl_expiry_strict_witness:
  "fst (CacheManager_get ''k'' 1001
      (CacheManager_calls [(5, MGet ''k''), (10, MSet ''j'' 3 50), (500, MCleanup)]
         (CacheManager_set ''k'' (7::nat) 1000 0 new_CacheManager))) = None
   \<and> fst (FrontendCache_get ''k'' 1001
      (FrontendCache_events [(5, Get ''k''), (10, Set ''j'' (Some 3) 50), (500, TimersFire)]
         (FrontendCache_set ''k'' (Some (7::nat)) 1000 0 new_FrontendCache))) = None
   \<and> CacheManager_get ''k'' 1000 (CacheManager_set ''k'' (7::nat) 1000 0 new_CacheManager)
       = (Some 7, CacheManager_set ''k'' 7 1000 0 new_CacheManager)
   \<and> fst (FrontendCache_get ''k'' 1000
        (FrontendCache_set ''k'' (Some (7::nat)) 1000 0 new_FrontendCache)) = Some 7"
  using ttl_expiry_strict [where created = 0 and t = 1000 and now = 1001
      and cs = "[(5, MGet ''k''), (10, MSet ''j'' 3 50), (500, MCleanup)]" and key = "''k''"
      and es = "[(5, Get ''k''), (10, Set ''j'' (Some 3) 50), (500, TimersFire)]"
      and v = "7::nat" and d = "Some (7::nat)"
      and m = new_CacheManager and f = new_FrontendCache
      and m' = "CacheManager_set ''k'' (7::nat) 1000 0 new_CacheManager" and v' = 7
      and expiry = 1000 and tm = 1000
      and f' = "FrontendCache_set ''k'' (Some (7::nat)) 1000 0 new_FrontendCache"
      and item = "\<lparr>data = Some (7::nat), timestamp = 0, ttl = 1000\<rparr>"]
  by (simp add: CacheManager_set_def evict_if_full_def new_CacheManager_def map_get_def
      FrontendCache_set_def new_FrontendCache_def)

text \<open>
  At the boundary the entry is still there: an entry stored at time 0 with a
  time-to-live of 1000 is returned by \<open>get\<close> at time 1000, by the server cache and by
  the client cache (whose timer for the key has not run).
\<close>

theorem ttl_expiry_boundary_counterexample:
  "fst (CacheManager_get ''k'' (0 + 1000)
      (CacheManager_set ''k'' (7::nat) 1000 0 new_CacheManager)) = Some 7
   \<and> fst (FrontendCache_get ''k'' (0 + 1000)
      (FrontendCache_set ''k'' (Some (7::nat)) 1000 0 new_FrontendCache)) = Some 7"
  by (simp add: CacheManager_get_def CacheManager_set_def evict_if_full_def new_CacheManager_def
      map_has_def map_get_def FrontendCache_get_def FrontendCache_set_def new_FrontendCache_def)

text \<open>
  C2. Every state \<open>s\<close> that a call sequence \<open>cs\<close> produces from \<open>new CacheManager()\<close>
  has at most \<open>maxSize\<close> entries, and its keys stand in the order in which they
  entered the map: each key entered before the keys behind it. A read leaves the
  position at which a key entered as it is, and so does a \<open>set\<close> that overwrites a key
  that is in the map (the key counts by its first insertion). When \<open>s\<close> is full, \<open>set\<close>
  removes exactly the first entry of the map (from both maps), the key that entered
  before every other key, and then stores the new entry; the size stays within
  \<open>maxSize\<close>.
\<close>

theorem capacity_bound:
  assumes "s = CacheManager_calls cs new_CacheManager"
  shows "length (cm_cache s) \<le> maxSize s
     \<and> sorted_wrt (before (entered cs)) (map_keys (cm_cache s))
     \<and> (k' \<in> set (map_keys (cm_cache (CacheManager_calls (cs @ [(now', MGet k)]) new_CacheManager)))
          \<longrightarrow> entered (cs @ [(now', MGet k)]) k' = entered cs k')
     \<and> (map_has k (cm_cache (evict_if_full s))
          \<longrightarrow> entered (cs @ [(now', MSet k v' t')]) k = entered cs k)
     \<and> (length (cm_cache s) = maxSize s \<longrightarrow>
          cm_cache s \<noteq> []
        \<and> map_first_key (cm_cache s) = Some (fst (hd (cm_cache s)))
        \<and> fst (hd (cm_cache s)) \<notin> set (map_keys (tl (cm_cache s)))
        \<and> (\<forall>x \<in> set (map_keys (tl (cm_cache s))). before (entered cs) (fst (hd (cm_cache s))) x)
        \<and> cm_cache (CacheManager_set key v t now s) = map_set key v (tl (cm_cache s))
        \<and> cm_ttl (CacheManager_set key v t now s) = map_set key (now + t) (tl (cm_ttl s))
        \<and> length (cm_cache (CacheManager_set key v t now s)) \<le> maxSize s)"
proof (intro conjI impI)
  have i: "manager_inv s" unfolding assms using inv_new by (rule inv_calls)
  then show "length (cm_cache s) \<le> maxSize s" by (simp add: manager_inv_def)
  have "entered_order (length cs) (map_keys (cm_cache s)) (entered cs)"
    unfolding assms by (rule entered_order_reachable)
  then show srt: "sorted_wrt (before (entered cs)) (map_keys (cm_cache s))"
    by (simp add: entered_order_def)
  {
    assume "k' \<in> set (map_keys (cm_cache (CacheManager_calls (cs @ [(now', MGet k)]) new_CacheManager)))"
    then show "entered (cs @ [(now', MGet k)]) k' = entered cs k'" by (rule entered_read_kept)
  }
  {
    assume "map_has k (cm_cache (evict_if_full s))"
    then show "entered (cs @ [(now', MSet k v' t')]) k = entered cs k"
      unfolding assms by (rule entered_overwrite_kept)
  }
  assume full: "length (cm_cache s) = maxSize s"
  note e = evict_full [OF i full]
  show ne: "cm_cache s \<noteq> []" by (rule e(1))
  then show "map_first_key (cm_cache s) = Some (fst (hd (cm_cache s)))"
    by (cases "cm_cache s") (simp_all add: map_first_key_def)
  from i have "distinct (map_keys (cm_cache s))" by (simp add: manager_inv_def)
  with ne show "fst (hd (cm_cache s)) \<notin> set (map_keys (tl (cm_cache s)))"
    by (cases "cm_cache s") (simp_all add: map_keys_def)
  from ne srt show "\<forall>x \<in> set (map_keys (tl (cm_cache s))). before (entered cs) (fst (hd (cm_cache s))) x"
    by (cases "cm_cache s") (simp_all add: map_keys_def)
  show "cm_cache (CacheManager_set key v t now s) = map_set key v (tl (cm_cache s))"
    by (simp add: CacheManager_set_def Let_def e(2))
  show "cm_ttl (CacheManager_set key v t now s) = map_set key (now + t) (tl (cm_ttl s))"
    by (simp add: CacheManager_set_def Let_def e(3))
  have "manager_inv (CacheManager_set key v t now s)" using i by (rule inv_set)
  then show "length (cm_cache (CacheManager_set key v t now s)) \<le> maxSize s"
    by (simp add: manager_inv_def i [unfolded manager_inv_def])
qed

text \<open>
  The witness: 999 keys are set, the key set first (the empty string) is read and then
  overwritten, and a last key fills the cache. The first key of the map is still the
  empty string, it entered before the last key, the read and the overwrite left its
  position as it was, and one more \<open>set\<close> drops it.
\<close>

theorem capacity_bound_witness:
  "length (cm_cache (CacheManager_calls busy_calls new_CacheManager)) = 1000
   \<and> maxSize (CacheManager_calls busy_calls new_CacheManager) = 1000
   \<and> map_first_key (cm_cache (CacheManager_calls busy_calls new_CacheManager)) = Some []
   \<and> before (entered busy_calls) [] (replicate 999 CHR ''a'')
   \<and> entered (fill_calls 999 @ [(2000, MGet [])]) [] = entered (fill_calls 999) []
   \<and> entered ((fill_calls 999 @ [(2000, MGet [])]) @ [(2001, MSet [] 5 300000)]) []
       = entered (fill_calls 999 @ [(2000, MGet [])]) []
   \<and> cm_cache (CacheManager_set ''new'' 7 60000 5000
        (CacheManager_calls busy_calls new_CacheManager))
      = map_set ''new'' 7 (tl (cm_cache (CacheManager_calls busy_calls new_CacheManager)))
   \<and> length (cm_cache (CacheManager_set ''new'' 7 60000 5000
        (CacheManager_calls busy_calls new_CacheManager))) \<le> 1000"
proof -
  define B where "B = CacheManager_calls busy_calls new_CacheManager"
  define S1 where "S1 = CacheManager_calls (fill_calls 999 @ [(2000, MGet [])]) new_CacheManager"
  define S0 where "S0 = CacheManager_calls (fill_calls 999) new_CacheManager"
  note st = busy_states
  have len: "length (cm_cache B) = 1000" and mx: "maxSize B = 1000"
    unfolding B_def by (simp_all add: st(3))
  have hd0: "fst (hd (cm_cache B)) = []" unfolding B_def by (simp add: st(3))
  have last_in: "replicate 999 CHR ''a'' \<in> set (map_keys (tl (cm_cache B)))"
    unfolding B_def by (simp add: st(3) map_keys_def)
  have full: "length (cm_cache B) = maxSize B" by (simp only: len mx)
  have read_in: "[] \<in> set (map_keys (cm_cache
      (CacheManager_calls (fill_calls 999 @ [(2000, MGet [])]) new_CacheManager)))"
    by (simp add: st(2) map_keys_def)
  have over_in: "map_has [] (cm_cache (evict_if_full S1))"
    unfolding S1_def by (simp add: st(2) evict_if_full_def map_has_def)
  note i1 = capacity_bound [OF B_def, where key = "''new''" and v = 7 and t = 60000 and now = 5000
      and k' = "[]" and k = "[]" and now' = 0 and v' = 0 and t' = 0]
  note i2 = capacity_bound [OF S0_def, where key = "''new''" and v = 7 and t = 60000 and now = 5000
      and k' = "[]" and k = "[]" and now' = 2000 and v' = 0 and t' = 0]
  note i3 = capacity_bound [OF S1_def, where key = "''new''" and v = 7 and t = 60000 and now = 5000
      and k' = "[]" and k = "[]" and now' = 2001 and v' = 5 and t' = 300000]
  from i1 full have
    a: "map_first_key (cm_cache B) = Some (fst (hd (cm_cache B)))"
    and b: "\<forall>x \<in> set (map_keys (tl (cm_cache B))). before (entered busy_calls) (fst (hd (cm_cache B))) x"
    and c: "cm_cache (CacheManager_set ''new'' 7 60000 5000 B) = map_set ''new'' 7 (tl (cm_cache B))"
    and d: "length (cm_cache (CacheManager_set ''new'' 7 60000 5000 B)) \<le> maxSize B"
    by blast+
  from b last_in have b': "before (entered busy_calls) [] (replicate 999 CHR ''a'')"
    unfolding hd0 by blast
  from i2 read_in have r: "entered (fill_calls 999 @ [(2000, MGet [])]) [] = entered (fill_calls 999) []"
    by blast
  from i3 over_in have
    w: "entered ((fill_calls 999 @ [(2000, MGet [])]) @ [(2001, MSet [] 5 300000)]) []
       = entered (fill_calls 999 @ [(2000, MGet [])]) []"
    by blast
  from a b' r w c d len mx show ?thesis
    unfolding B_def [symmetric] hd0 by (simp only: simp_thms)
qed

text \<open>
  C6. On a client cache with no hits and no misses, \<open>set(a, v, t)\<close>, then \<open>get(a)\<close> while
  the entry passes the expiry test of \<open>get\<close>, then \<open>get(b)\<close> for a key \<open>b\<close> that is not
  stored: the first \<open>get\<close> returns the payload, the second returns nothing, and the
  statistics report one hit, one miss and a hit rate of 50. The hit rate of a cache with
  no accesses is 0. The hit rate is computed in the reals; the value 50 is exact in
  double precision as well.
\<close>

theorem hit_miss_accounting:
  "hits s = 0 \<Longrightarrow> misses s = 0 \<Longrightarrow> a \<noteq> b \<Longrightarrow> map_get b (cache s) = None \<Longrightarrow> t1 - t0 \<le> t \<Longrightarrow>
   (let s1 = FrontendCache_set a v t t0 s;
        s2 = snd (FrontendCache_get a t1 s1);
        s3 = snd (FrontendCache_get b t2 s2);
        st = FrontendCache_getStats s3
    in fst (FrontendCache_get a t1 s1) = v \<and> fst (FrontendCache_get b t2 s2) = None \<and>
       stat_hits st = 1 \<and> stat_misses st = 1 \<and> hitRate st = 50)
   \<and> (hits s' + misses s' = 0 \<longrightarrow> hitRate (FrontendCache_getStats s') = 0)"
  by (simp add: FrontendCache_set_def FrontendCache_get_def FrontendCache_getStats_def Let_def
      map_get_set)

theorem hit_miss_accounting_witness:
  "(let s1 = FrontendCache_set ''a'' (Some (1::nat)) 300000 0 new_FrontendCache;
        s2 = snd (FrontendCache_get ''a'' 10 s1);
        s3 = snd (FrontendCache_get ''b'' 20 s2);
        st = FrontendCache_getStats s3
    in fst (FrontendCache_get ''a'' 10 s1) = Some 1 \<and> fst (FrontendCache_get ''b'' 20 s2) = None \<and>
       stat_hits st = 1 \<and> stat_misses st = 1 \<and> hitRate st = 50)
   \<and> hits (new_FrontendCache :: nat FrontendCache) + misses (new_FrontendCache :: nat FrontendCache) = 0
   \<and> hitRate (FrontendCache_getStats (new_FrontendCache :: nat FrontendCache)) = 0"
  using hit_miss_accounting [where s = "new_FrontendCache :: nat FrontendCache" and a = "''a''"
      and b = "''b''" and ?t1.0 = 10 and ?t0.0 = 0 and t = 300000 and v = "Some 1" and ?t2.0 = 20
      and s' = "new_FrontendCache :: nat FrontendCache"]
  by (simp add: new_FrontendCache_def)

text \<open>
  C9 (as amended). In every state and at every instant, \<open>has(key)\<close> is true exactly
  when \<open>get(key)\<close> finds an entry that has not expired, that is when \<open>get\<close> counts a
  hit; \<open>get\<close> then returns the payload stored in that entry, and when \<open>has\<close> is false
  \<open>get\<close> returns nothing. So \<open>has(key)\<close> is true exactly when \<open>get(key)\<close> returns a
  value, provided the payload stored under the key is not \<open>null\<close>. \<open>has\<close> leaves the
  hit and miss counters as they are.
\<close>

theorem has_iff_hit:
  "fst (FrontendCache_has key now s) = (hits (snd (FrontendCache_get key now s)) = hits s + 1)
   \<and> (fst (FrontendCache_has key now s) \<longrightarrow>
        (\<exists>item. map_get key (cache s) = Some item
           \<and> fst (FrontendCache_get key now s) = data item))
   \<and> (\<not> fst (FrontendCache_has key now s) \<longrightarrow> fst (FrontendCache_get key now s) = None)
   \<and> ((\<forall>item. map_get key (cache s) = Some item \<longrightarrow> data item \<noteq> None) \<longrightarrow>
        fst (FrontendCache_has key now s) = (fst (FrontendCache_get key now s) \<noteq> None))
   \<and> hits (snd (FrontendCache_has key now s)) = hits s
   \<and> misses (snd (FrontendCache_has key now s)) = misses s"
  by (simp add: FrontendCache_has_def FrontendCache_get_def split: option.split)

theorem has_iff_hit_witness:
  "fst (FrontendCache_has ''k'' 10 (FrontendCache_set ''k'' (Some (1::nat)) 1000 0 new_FrontendCache))
   \<and> fst (FrontendCache_get ''k'' 10
        (FrontendCache_set ''k'' (Some (1::nat)) 1000 0 new_FrontendCache)) = Some 1
   \<and> \<not> fst (FrontendCache_has ''k'' 2000
        (FrontendCache_set ''k'' (Some (1::nat)) 1000 0 new_FrontendCache))
   \<and> fst (FrontendCache_get ''k'' 2000
        (FrontendCache_set ''k'' (Some (1::nat)) 1000 0 new_FrontendCache)) = None"
  using has_iff_hit [where key = "''k''" and now = 10
      and s = "FrontendCache_set ''k'' (Some (1::nat)) 1000 0 new_FrontendCache"]
    has_iff_hit [where key = "''k''" and now = 2000
      and s = "FrontendCache_set ''k'' (Some (1::nat)) 1000 0 new_FrontendCache"]
  by (simp add: FrontendCache_set_def FrontendCache_has_def FrontendCache_get_def
      new_FrontendCache_def map_get_def)

text \<open>
  With \<open>null\<close> stored under the key, \<open>has\<close> is true and \<open>get\<close> returns \<open>null\<close>, the same
  as for a key that is absent.
\<close>

theorem has_null_counterexample:
  "fst (FrontendCache_has ''k'' 10
      (FrontendCache_set ''k'' (None :: nat option) 1000 0 new_FrontendCache)) = True
   \<and> fst (FrontendCache_get ''k'' 10
      (FrontendCache_set ''k'' (None :: nat option) 1000 0 new_FrontendCache)) = None"
  by (simp add: FrontendCache_set_def FrontendCache_has_def FrontendCache_get_def
      new_FrontendCache_def map_get_def)

text \<open>
  C10. Every \<open>set(key, value, ttl)\<close> of the client cache puts a deletion of \<open>key\<close> into
  the timer queue, due after the delay that \<open>setTimeout\<close> makes of \<open>ttl\<close>: \<open>ttl\<close>
  itself when it is between 1 and 2147483647. No method call removes a pending timer,
  and no run of the timers removes one that cannot run yet. When the timer runs, the
  key is absent, whatever entry it held. So when a key set at time \<open>a\<close> with
  time-to-live \<open>t1\<close> is set again at time \<open>b\<close> with \<open>t2\<close>, and the first timer runs at a
  time \<open>c\<close> with \<open>a + t1 \<le> c\<close>, a \<open>get\<close> at a time \<open>g\<close> with \<open>c \<le> g < b + t2\<close> returns
  nothing, although the latest entry has not reached its own expiry.
\<close>

theorem stale_timer_deletes:
  "(now + timer_delay t, key) \<in> set (timers (FrontendCache_set key d t now s))
   \<and> (1 \<le> t \<and> t \<le> 2147483647 \<longrightarrow>
        (now + t, key) \<in> set (timers (FrontendCache_set key d t now s)))
   \<and> (p \<in> set (timers s) \<and> (\<forall>e \<in> set es. snd e = TimersFire \<longrightarrow> fst e < fst p - 1)
        \<longrightarrow> p \<in> set (timers (FrontendCache_events es s)))
   \<and> ((due, key) \<in> set (timers s) \<and> due - 1 \<le> c
        \<longrightarrow> fst (FrontendCache_get key g (run_timers c s)) = None)
   \<and> (a + timer_delay t1 - 1 \<le> c
        \<longrightarrow> fst (FrontendCache_get key g
               (run_timers c (FrontendCache_set key v2 t2 b (FrontendCache_set key v1 t1 a s)))) = None)
   \<and> (1 \<le> t1 \<and> t1 \<le> 2147483647 \<and> a + t1 \<le> c \<and> c \<le> g \<and> g < b + t2
        \<longrightarrow> fst (FrontendCache_get key g
               (run_timers c (FrontendCache_set key v2 t2 b (FrontendCache_set key v1 t1 a s)))) = None)"
proof -
  let ?s2 = "FrontendCache_set key v2 t2 b (FrontendCache_set key v1 t1 a s)"
  have sched: "(now + timer_delay t, key) \<in> set (timers (FrontendCache_set key d t now s))"
    by (simp add: FrontendCache_set_def)
  have ordinary: "1 \<le> t \<and> t \<le> 2147483647 \<longrightarrow>
        (now + t, key) \<in> set (timers (FrontendCache_set key d t now s))"
    by (simp add: FrontendCache_set_def timer_delay_def)
  have keep: "p \<in> set (timers s) \<and> (\<forall>e \<in> set es. snd e = TimersFire \<longrightarrow> fst e < fst p - 1)
        \<longrightarrow> p \<in> set (timers (FrontendCache_events es s))"
  proof
    assume h: "p \<in> set (timers s) \<and> (\<forall>e \<in> set es. snd e = TimersFire \<longrightarrow> fst e < fst p - 1)"
    then have "\<forall>e \<in> set es. snd e = TimersFire \<longrightarrow> \<not> can_run (fst e) p"
      by (auto simp: can_run_def)
    with h show "p \<in> set (timers (FrontendCache_events es s))"
      using timers_events by blast
  qed
  have gone: "fst (FrontendCache_get key g (run_timers c s')) = None"
    if h: "(due', key) \<in> set (timers s')" "due' - 1 \<le> c" for s' :: "'a FrontendCache" and due'
  proof -
    from h have "(due', key) \<in> {p \<in> set (timers s'). can_run c p}" by (simp add: can_run_def)
    then have "key \<in> snd ` {p \<in> set (timers s'). can_run c p}" by force
    then have "map_get key (cache (run_timers c s')) = None"
      by (simp add: map_get_run_timers)
    then show ?thesis by (simp add: FrontendCache_get_def)
  qed
  have first: "(a + timer_delay t1, key) \<in> set (timers ?s2)"
    by (simp add: FrontendCache_set_def)
  have stale: "a + timer_delay t1 - 1 \<le> c
        \<longrightarrow> fst (FrontendCache_get key g (run_timers c ?s2)) = None"
    using gone [OF first] by blast
  have claim: "1 \<le> t1 \<and> t1 \<le> 2147483647 \<and> a + t1 \<le> c \<and> c \<le> g \<and> g < b + t2
        \<longrightarrow> fst (FrontendCache_get key g (run_timers c ?s2)) = None"
  proof
    assume h: "1 \<le> t1 \<and> t1 \<le> 2147483647 \<and> a + t1 \<le> c \<and> c \<le> g \<and> g < b + t2"
    then have "a + timer_delay t1 - 1 \<le> c" by (simp add: timer_delay_def)
    with stale show "fst (FrontendCache_get key g (run_timers c ?s2)) = None" by blast
  qed
  have del: "(due, key) \<in> set (timers s) \<and> due - 1 \<le> c
        \<longrightarrow> fst (FrontendCache_get key g (run_timers c s)) = None"
    using gone [of due s] by blast
  from sched ordinary keep del stale claim show ?thesis by blast
qed

text \<open>
  The witness: \<open>set(k, 1, 100)\<close> at time 0 and \<open>set(k, 2, 1000)\<close> at time 50. The first
  timer stays pending through later calls; once it has run at time 100, \<open>get(k)\<close> at
  time 200 returns nothing, 850 ms before the second entry would expire. Before the timer
  can run, at time 98, \<open>get(k)\<close> returns 2.
\<close>

theorem stale_timer_deletes_witness:
  "(0 + 100, ''k'') \<in> set (timers (FrontendCache_set ''k'' (Some (1::nat)) 100 0 new_FrontendCache))
   \<and> (100, ''k'') \<in> set (timers (FrontendCache_events
          [(50, Set ''k'' (Some 2) 1000), (60, Get ''k''), (70, TimersFire), (80, Clear)]
          (FrontendCache_set ''k'' (Some (1::nat)) 100 0 new_FrontendCache)))
   \<and> fst (FrontendCache_get ''k'' 200
        (run_timers 100 (FrontendCache_set ''k'' (Some (1::nat)) 100 0 new_FrontendCache))) = None
   \<and> (200::int) < 50 + 1000
   \<and> fst (FrontendCache_get ''k'' 200
        (run_timers 100 (FrontendCache_set ''k'' (Some 2) 1000 50
           (FrontendCache_set ''k'' (Some (1::nat)) 100 0 new_FrontendCache)))) = None
   \<and> fst (FrontendCache_get ''k'' 98
        (run_timers 98 (FrontendCache_set ''k'' (Some 2) 1000 50
           (FrontendCache_set ''k'' (Some (1::nat)) 100 0 new_FrontendCache)))) = Some 2"
proof -
  note first = stale_timer_deletes [where now = 0 and t = 100 and key = "''k''" and d = "Some (1::nat)"
      and s = new_FrontendCache and p = "(100, ''k'')"
      and es = "[]"
      and due = 100 and c = 100 and g = 200 and a = 0 and ?t1.0 = 100 and b = 50
      and ?t2.0 = 1000 and ?v2.0 = "Some 2" and ?v1.0 = "Some 1"]
  note pending = stale_timer_deletes [where now = 0 and t = 100 and key = "''k''" and d = "Some (1::nat)"
      and s = "FrontendCache_set ''k'' (Some (1::nat)) 100 0 new_FrontendCache" and p = "(100, ''k'')"
      and es = "[(50, Set ''k'' (Some 2) 1000), (60, Get ''k''), (70, TimersFire), (80, Clear)]"
      and due = 100 and c = 100 and g = 200 and a = 0 and ?t1.0 = 100 and b = 50
      and ?t2.0 = 1000 and ?v2.0 = "Some 2" and ?v1.0 = "Some 1"]
  have in_queue: "(100, ''k'') \<in> set (timers (FrontendCache_set ''k'' (Some (1::nat)) 100 0 new_FrontendCache))"
    using first by simp
  from first have sched: "(0 + 100, ''k'') \<in> set (timers (FrontendCache_set ''k'' (Some (1::nat)) 100 0 new_FrontendCache))"
    by simp
  from pending in_queue have kept: "(100, ''k'') \<in> set (timers (FrontendCache_events
          [(50, Set ''k'' (Some 2) 1000), (60, Get ''k''), (70, TimersFire), (80, Clear)]
          (FrontendCache_set ''k'' (Some (1::nat)) 100 0 new_FrontendCache)))"
    by simp
  from pending in_queue have run: "fst (FrontendCache_get ''k'' 200
        (run_timers 100 (FrontendCache_set ''k'' (Some (1::nat)) 100 0 new_FrontendCache))) = None"
    by simp
  from first have stale: "fst (FrontendCache_get ''k'' 200
        (run_timers 100 (FrontendCache_set ''k'' (Some 2) 1000 50
           (FrontendCache_set ''k'' (Some (1::nat)) 100 0 new_FrontendCache)))) = None"
    by simp
  have early: "fst (FrontendCache_get ''k'' 98
        (run_timers 98 (FrontendCache_set ''k'' (Some 2) 1000 50
           (FrontendCache_set ''k'' (Some (1::nat)) 100 0 new_FrontendCache)))) = Some 2"
    by (simp add: FrontendCache_set_def FrontendCache_get_def new_FrontendCache_def run_timers_def
      timer_callback_def map_get_def map_delete_def timer_delay_def can_run_def)
  from sched kept run stale early show ?thesis by simp
qed
section \<open>debounce: the invariant, a burst of calls, quiescence\<close>

lemma inv_new_debounced: "debounce_inv new_debounced"
  by (simp add: debounce_inv_def new_debounced_def)

lemma clear_own:
  "debounce_inv s \<Longrightarrow> pending (clearTimeout (timeout s) s) = []"
  by (auto simp: debounce_inv_def clearTimeout_def split: option.splits)

lemma executedFunction_effect:
  assumes "debounce_inv s"
  shows "pending (executedFunction wait a now s) = [(next_handle s, now + wait, a)]"
    and "timeout (executedFunction wait a now s) = Some (next_handle s)"
    and "next_handle (executedFunction wait a now s) = next_handle s + 1"
    and "invocations (executedFunction wait a now s) = invocations s"
  using clear_own [OF assms]
  by (simp_all add: executedFunction_def setTimeout_def Let_def clearTimeout_def split: option.splits)

lemma inv_executedFunction:
  "debounce_inv s \<Longrightarrow> debounce_inv (executedFunction wait a now s)"
  using executedFunction_effect [of s wait a now]
  by (simp add: debounce_inv_def)

lemma fires_idle: "pending s = [] \<Longrightarrow> timer_fires cb now s = s"
  by (simp add: timer_fires_def)

lemma fires_early:
  "\<forall>p \<in> set (pending s). now < fst (snd p) \<Longrightarrow> timer_fires cb now s = s"
proof -
  assume "\<forall>p \<in> set (pending s). now < fst (snd p)"
  then have "find (\<lambda>p. fst (snd p) \<le> now) (pending s) = None"
    by (auto simp: find_None_iff)
  then show ?thesis by (simp add: timer_fires_def)
qed

lemma fires_due:
  assumes "pending s = [(h, due, a)]" and "timeout s = Some h" and "due \<le> now"
  shows "timer_fires later now s = s\<lparr>pending := [], invocations := invocations s @ [a]\<rparr>"
  using assms by (simp add: timer_fires_def later_def clearTimeout_def Let_def)

lemma inv_fires: "debounce_inv s \<Longrightarrow> debounce_inv (timer_fires later now s)"
proof -
  assume i: "debounce_inv s"
  show ?thesis
  proof (cases "find (\<lambda>p. fst (snd p) \<le> now) (pending s)")
    case None
    then show ?thesis using i by (simp add: timer_fires_def)
  next
    case (Some p)
    then have "pending s \<noteq> []" by auto
    with i obtain h due a where p: "pending s = [(h, due, a)]" and t: "timeout s = Some h"
      by (auto simp: debounce_inv_def)
    with Some have "due \<le> now" by (auto split: if_splits)
    from fires_due [OF p t this] i show ?thesis
      by (simp add: debounce_inv_def)
  qed
qed

lemma inv_step: "debounce_inv s \<Longrightarrow> debounce_inv (debounce_step wait now e s)"
  by (cases e) (simp_all add: inv_executedFunction inv_fires)

lemma inv_run: "debounce_inv s \<Longrightarrow> debounce_inv (debounce_run wait es s)"
  by (induction es arbitrary: s) (simp_all add: inv_step)

(* the burst *)
lemma burst:
  assumes "debounce_inv s"
    and "\<forall>p \<in> set (pending s). t0 + wait \<le> fst (snd p)"
    and "\<forall>e \<in> set es. t0 \<le> fst e \<and> fst e < t0 + wait"
  shows "debounce_inv (debounce_run wait es s)
     \<and> invocations (debounce_run wait es s) = invocations s
     \<and> (calls_of es = [] \<longrightarrow> pending (debounce_run wait es s) = pending s)
     \<and> (calls_of es \<noteq> [] \<longrightarrow>
          map snd (pending (debounce_run wait es s)) =
            [(fst (last (calls_of es)) + wait, snd (last (calls_of es)))])"
  using assms
proof (induction es arbitrary: s)
  case Nil
  then show ?case by simp
next
  case (Cons e es)
  obtain t ev where e: "e = (t, ev)" by (cases e)
  from Cons.prems(3) e have tw: "t0 \<le> t" "t < t0 + wait" by auto
  show ?case
  proof (cases ev)
    case (Call a)
    let ?s1 = "executedFunction wait a t s"
    note eff = executedFunction_effect [OF Cons.prems(1), of wait a t]
    have i1: "debounce_inv ?s1" using Cons.prems(1) by (rule inv_executedFunction)
    have d1: "\<forall>p \<in> set (pending ?s1). t0 + wait \<le> fst (snd p)"
      using eff(1) tw by simp
    have r: "\<forall>e \<in> set es. t0 \<le> fst e \<and> fst e < t0 + wait" using Cons.prems(3) by simp
    note ih = Cons.IH [OF i1 d1 r]
    show ?thesis
    proof (cases "calls_of es = []")
      case True
      with ih eff show ?thesis by (simp add: e Call)
    next
      case False
      with ih eff show ?thesis by (simp add: e Call)
    qed
  next
    case TimerDue
    have "\<forall>p \<in> set (pending s). t < fst (snd p)"
      using Cons.prems(2) tw by fastforce
    then have same: "timer_fires later t s = s" by (rule fires_early)
    have r: "\<forall>e \<in> set es. t0 \<le> fst e \<and> fst e < t0 + wait" using Cons.prems(3) by simp
    note ih = Cons.IH [OF Cons.prems(1) Cons.prems(2) r]
    then show ?thesis by (simp add: e TimerDue same)
  qed
qed

lemma idle_timers:
  "pending s = [] \<Longrightarrow> \<forall>e \<in> set es. is_timer_event (snd e) \<Longrightarrow> debounce_run wait es s = s"
proof (induction es arbitrary: s)
  case Nil
  then show ?case by simp
next
  case (Cons e es)
  then obtain t where "e = (t, TimerDue)"
    by (cases e, cases "snd e") auto
  with Cons show ?case by (simp add: fires_idle)
qed

lemma quiescence:
  assumes "pending s = [(h, due, a)]" and "timeout s = Some h"
    and "\<forall>e \<in> set es. is_timer_event (snd e)"
  shows "invocations (debounce_run wait es s) =
           invocations s @ (if \<exists>e \<in> set es. due \<le> fst e then [a] else [])"
  using assms
proof (induction es arbitrary: s)
  case Nil
  then show ?case by simp
next
  case (Cons e es)
  then obtain t where e: "e = (t, TimerDue)"
    by (cases e, cases "snd e") auto
  have r: "\<forall>e \<in> set es. is_timer_event (snd e)" using Cons.prems(3) by simp
  show ?case
  proof (cases "due \<le> t")
    case True
    let ?s1 = "s\<lparr>pending := [], invocations := invocations s @ [a]\<rparr>"
    have f: "timer_fires later t s = ?s1"
      using Cons.prems(1) Cons.prems(2) True by (rule fires_due)
    have "debounce_run wait es ?s1 = ?s1" using r by (intro idle_timers) simp_all
    then show ?thesis using True by (simp add: e f)
  next
    case False
    then have "\<forall>p \<in> set (pending s). t < fst (snd p)" using Cons.prems(1) by simp
    then have same: "timer_fires later t s = s" by (rule fires_early)
    from Cons.IH [OF Cons.prems(1) Cons.prems(2) r] False show ?thesis
      by (simp add: e same)
  qed
qed

lemma run_append:
  "debounce_run wait (es @ es') s = debounce_run wait es' (debounce_run wait es s)"
  by (induction es arbitrary: s) simp_all

lemma same_calls_step:
  assumes "debounce_inv s" and "same_calls s s'"
  shows "same_calls (debounce_step wait now e s) (debounce_step_immediate wait False now e s')"
proof (cases e)
  case (Call a)
  have c: "pending (clearTimeout (timeout s') s') = pending (clearTimeout (timeout s) s)"
    using assms(2) by (auto simp: same_calls_def clearTimeout_def split: option.splits)
  have c0: "pending (clearTimeout (timeout s) s) = []" using assms(1) by (rule clear_own)
  show ?thesis
    using assms(2) c c0
    by (simp add: Call same_calls_def executedFunction_def executedFunction_immediate_def
        setTimeout_def Let_def clearTimeout_def split: option.splits)
next
  case TimerDue
  show ?thesis
  proof (cases "find (\<lambda>p. fst (snd p) \<le> now) (pending s)")
    case None
    then show ?thesis using assms(2) by (simp add: TimerDue timer_fires_def same_calls_def)
  next
    case (Some p)
    then have ne: "pending s \<noteq> []" by auto
    with assms(1) obtain h due a where p: "pending s = [(h, due, a)]" and t: "timeout s = Some h"
      by (auto simp: debounce_inv_def)
    with Some have due: "due \<le> now" by (auto split: if_splits)
    have f: "timer_fires later now s = s\<lparr>pending := [], invocations := invocations s @ [a]\<rparr>"
      using p t due by (rule fires_due)
    have "timer_fires (later_immediate False) now s' =
        s'\<lparr>pending := [], timeout := None, invocations := invocations s' @ [a]\<rparr>"
      using assms(2) p due
      by (simp add: timer_fires_def later_immediate_def same_calls_def Let_def)
    then show ?thesis using f assms(2) by (simp add: TimerDue same_calls_def)
  qed
qed

lemma same_calls_run:
  "debounce_inv s \<Longrightarrow> same_calls s s' \<Longrightarrow>
   same_calls (debounce_run wait es s) (debounce_run_immediate wait False es s')"
proof (induction es arbitrary: s s')
  case Nil
  then show ?case by simp
next
  case (Cons e es)
  have "debounce_inv (debounce_step wait (fst e) (snd e) s)"
    using Cons.prems(1) by (rule inv_step)
  moreover have "same_calls (debounce_step wait (fst e) (snd e) s)
      (debounce_step_immediate wait False (fst e) (snd e) s')"
    using Cons.prems by (rule same_calls_step)
  ultimately show ?case using Cons.IH by simp
qed

lemma trailing_variant_agrees:
  "invocations (debounce_run_immediate wait False es new_debounced) =
   invocations (debounce_run wait es new_debounced)"
proof -
  have "same_calls (new_debounced :: 'a debounced) new_debounced" by (simp add: same_calls_def)
  with inv_new_debounced have "same_calls (debounce_run wait es (new_debounced :: 'a debounced))
      (debounce_run_immediate wait False es new_debounced)"
    by (rule same_calls_run)
  then show ?thesis by (simp add: same_calls_def)
qed

section \<open>Claim about debounce\<close>

text \<open>
  C7. Take a debounced function with no timer pending, and a burst of events that all
  fall within one window of \<open>wait\<close> milliseconds and contain at least one call. During
  the burst \<open>func\<close> is not called, and at its end exactly one timer is pending: the
  one of the last call, due \<open>wait\<close> after it, holding the last call's arguments; every
  earlier call's timer has been cancelled. In the quiet time that follows, \<open>func\<close> is
  called exactly once, with the last call's arguments, as soon as the runtime runs a
  timer at or after that due time, and not before. The three-argument \<open>debounce\<close>
  with \<open>immediate = false\<close> makes the same calls of \<open>func\<close>. For the filter update
  \<open>wait\<close> is 300.
\<close>

theorem debounce_collapse:
  assumes "s = debounce_run wait es0 new_debounced" and "pending s = []"
    and "calls_of es \<noteq> []"
    and "\<forall>e \<in> set es. t0 \<le> fst e \<and> fst e < t0 + wait"
    and "\<forall>e \<in> set es'. is_timer_event (snd e)"
  shows "invocations (debounce_run wait es s) = invocations s
     \<and> map snd (pending (debounce_run wait es s)) =
          [(fst (last (calls_of es)) + wait, snd (last (calls_of es)))]
     \<and> invocations (debounce_run wait (es @ es') s) =
          invocations s @
            (if \<exists>e \<in> set es'. fst (last (calls_of es)) + wait \<le> fst e
             then [snd (last (calls_of es))] else [])
     \<and> invocations (debounce_run_immediate wait False (es0 @ es @ es') new_debounced) =
          invocations (debounce_run wait (es @ es') s)"
proof -
  let ?s1 = "debounce_run wait es s"
  have i: "debounce_inv s" unfolding assms(1) using inv_new_debounced by (rule inv_run)
  have nd: "\<forall>p \<in> set (pending s). t0 + wait \<le> fst (snd p)" using assms(2) by simp
  note b = burst [OF i nd assms(4)]
  from b assms(3) have inv1: "debounce_inv ?s1" and keep: "invocations ?s1 = invocations s"
    and pend: "map snd (pending ?s1) =
          [(fst (last (calls_of es)) + wait, snd (last (calls_of es)))]"
    by simp_all
  from pend obtain h where p: "pending ?s1 =
      [(h, fst (last (calls_of es)) + wait, snd (last (calls_of es)))]"
    by (cases "pending ?s1") auto
  with inv1 have t: "timeout ?s1 = Some h" by (auto simp: debounce_inv_def)
  have q: "invocations (debounce_run wait (es @ es') s) =
          invocations s @
            (if \<exists>e \<in> set es'. fst (last (calls_of es)) + wait \<le> fst e
             then [snd (last (calls_of es))] else [])"
    using quiescence [OF p t assms(5), of wait] keep by (simp add: run_append)
  have v: "invocations (debounce_run_immediate wait False (es0 @ es @ es') new_debounced) =
          invocations (debounce_run wait (es @ es') s)"
    using trailing_variant_agrees [of wait "es0 @ es @ es'"] by (simp add: assms(1) run_append)
  from keep pend q v show ?thesis by blast
qed

text \<open>
  The witness: five calls with the values 1 to 5 at the times 0, 50, 120, 200 and 299,
  with a run of the timers in between, then timer runs at 400, 599 and 700. The only
  call of \<open>func\<close> is the one with 5.
\<close>

theorem debounce_collapse_witness:
  "invocations (debounce_run 300
      [(0, Call (1::nat)), (50, Call 2), (100, TimerDue), (120, Call 3), (200, Call 4),
       (299, Call 5)] new_debounced) = []
   \<and> map snd (pending (debounce_run 300
      [(0, Call (1::nat)), (50, Call 2), (100, TimerDue), (120, Call 3), (200, Call 4),
       (299, Call 5)] new_debounced)) = [(599, 5)]
   \<and> invocations (debounce_run 300
      ([(0, Call (1::nat)), (50, Call 2), (100, TimerDue), (120, Call 3), (200, Call 4),
        (299, Call 5)] @ [(400, TimerDue), (599, TimerDue), (700, TimerDue)]) new_debounced) = [5]
   \<and> invocations (debounce_run_immediate 300 False
      ([(0, Call (1::nat)), (50, Call 2), (100, TimerDue), (120, Call 3), (200, Call 4),
        (299, Call 5)] @ [(400, TimerDue), (599, TimerDue), (700, TimerDue)]) new_debounced) = [5]"
  using debounce_collapse [where s = "new_debounced :: nat debounced" and wait = 300
      and ?es0.0 = "[]"
      and es = "[(0, Call 1), (50, Call 2), (100, TimerDue), (120, Call 3), (200, Call 4),
        (299, Call 5)]"
      and ?t0.0 = 0
      and es' = "[(400, TimerDue), (599, TimerDue), (700, TimerDue)]"]
  by (simp add: new_debounced_def)

section \<open>The page: starting and settling fetches\<close>

lemma settle_commute:
  "k1 \<noteq> k2 \<Longrightarrow>
   fetchData_settle k1 r1 (fetchData_settle k2 r2 pg) =
   fetchData_settle k2 r2 (fetchData_settle k1 r1 pg)"
  by (cases r1; cases r2) (auto simp: fetchData_settle_def fun_upd_twist)

lemma settle_other:
  "k1 \<noteq> k2 \<Longrightarrow>
   options (fetchData_settle k2 r2 pg) k1 = options pg k1
   \<and> loading (fetchData_settle k2 r2 pg) k1 = loading pg k1
   \<and> cached (fetchData_settle k2 r2 pg) k1 = cached pg k1"
  by (cases r2) (auto simp: fetchData_settle_def)

lemma settle_own: "loading (fetchData_settle k r pg) k = Some False"
  by (cases r) (auto simp: fetchData_settle_def)

lemma loading_start_fetches:
  "loading (start_fetches cs pg) k =
     (if k \<in> fetch_type ` set cs then Some True else loading pg k)"
  unfolding start_fetches_def
  by (induction cs arbitrary: pg) (auto simp: fetchData_start_def)

lemma page_cache_start [simp]: "page_cache (fetchData_start k pg) = page_cache pg"
  by (simp add: fetchData_start_def)

lemma page_cache_start_fetches [simp]: "page_cache (start_fetches cs pg) = page_cache pg"
  unfolding start_fetches_def
  by (induction cs arbitrary: pg) (auto simp: fetchData_start_def)

lemma filters_start_fetches [simp]: "filters (start_fetches cs pg) = filters pg"
  unfolding start_fetches_def
  by (induction cs arbitrary: pg) (auto simp: fetchData_start_def)

lemma refresh_calls:
  "snd (refreshAllData pg) =
     [GetVertical 1 1, GetYears]
     @ (if vertical (filters pg) \<noteq> [] \<and> vertical (filters pg) \<noteq> ''All''
        then [GetBusiness 1 1 (vertical (filters pg))] else [])
     @ (if business (filters pg) \<noteq> [] \<and> business (filters pg) \<noteq> ''All''
        then [GetSite 1 1 (business (filters pg))] else [])
     @ (if year (filters pg) \<noteq> [] then [GetMonths (year (filters pg))] else [])"
  by (simp add: refreshAllData_def Let_def)

lemma refresh_state:
  "fst (refreshAllData pg) = start_fetches (snd (refreshAllData pg)) (pg\<lparr>page_cache := []\<rparr>)"
  by (simp add: refreshAllData_def Let_def)

lemma refresh_loading:
  "call \<in> set (snd (refreshAllData pg)) \<Longrightarrow>
   loading (fst (refreshAllData pg)) (fetch_type call) = Some True"
proof -
  assume "call \<in> set (snd (refreshAllData pg))"
  then have "fetch_type call \<in> fetch_type ` set (snd (refreshAllData pg))" by (rule imageI)
  then show ?thesis
    by (simp only: refresh_state [of pg] loading_start_fetches if_True)
qed

section \<open>The business route on the cache of the specification\<close>

lemma getBusiness_set_key:
  "snd (getBusiness executeQuery cached_data b u v) = Some (k, d, t) \<Longrightarrow>
   k = business_cacheKey b u v \<and> t = 300000"
  by (auto simp: getBusiness_def internal_server_error_def split: option.splits if_splits)

lemma spec_get_other:
  "k \<noteq> key \<Longrightarrow>
   map_get k (spec_entries (snd (spec_get key now c))) = map_get k (spec_entries c)"
  by (simp add: spec_get_def map_get_delete split: option.split)

lemma spec_get_length:
  "length (spec_entries (snd (spec_get key now c))) \<le> length (spec_entries c)"
  by (simp add: spec_get_def map_delete_def split: option.split)

lemma spec_get_maxSize [simp]: "spec_maxSize (snd (spec_get key now c)) = spec_maxSize c"
  by (simp add: spec_get_def split: option.split)

lemma spec_set_other:
  "k \<noteq> key \<Longrightarrow> length (spec_entries c) < spec_maxSize c \<Longrightarrow>
   map_get k (spec_entries (spec_set key d t now c)) = map_get k (spec_entries c)"
  by (simp add: spec_set_def map_get_set)

lemma route_other:
  assumes "k \<noteq> business_cacheKey b u v" and "length (spec_entries c) < spec_maxSize c"
  shows "map_get k (spec_entries (snd (getBusiness_route spec_cache_service executeQuery
            now now' b u v c))) = map_get k (spec_entries c)"
proof -
  obtain cd c1 where g: "spec_get (business_cacheKey b u v) now c = (cd, c1)"
    by (cases "spec_get (business_cacheKey b u v) now c")
  have c1: "c1 = snd (spec_get (business_cacheKey b u v) now c)" by (simp add: g)
  have other: "map_get k (spec_entries c1) = map_get k (spec_entries c)"
    unfolding c1 using assms(1) by (rule spec_get_other)
  have room: "length (spec_entries c1) < spec_maxSize c1"
    unfolding c1 using spec_get_length [of "business_cacheKey b u v" now c] assms(2) by simp
  obtain res st where h: "getBusiness executeQuery cd b u v = (res, st)"
    by (cases "getBusiness executeQuery cd b u v")
  show ?thesis
  proof (cases st)
    case None
    then show ?thesis
      by (simp add: getBusiness_route_def spec_cache_service_def g h other)
  next
    case (Some x)
    obtain k' d t where x: "x = (k', d, t)" by (cases x)
    have "snd (getBusiness executeQuery cd b u v) = Some (k', d, t)" by (simp add: h Some x)
    then have k': "k' = business_cacheKey b u v" by (simp add: getBusiness_set_key)
    have "map_get k (spec_entries (spec_set k' d t now' c1)) = map_get k (spec_entries c1)"
      unfolding k' using assms(1) room by (rule spec_set_other)
    then show ?thesis
      by (simp add: getBusiness_route_def spec_cache_service_def g h Some x other)
  qed
qed

lemma route_hit:
  "map_get (business_cacheKey b u v) (spec_entries c) = Some e \<Longrightarrow>
   now < createdAt e + entry_ttl e \<Longrightarrow>
   getBusiness_route spec_cache_service executeQuery now now' b u v c =
     (\<lparr>status = 200, body = Payload (entry_value e) True\<rparr>,
      c\<lparr>spec_hits := spec_hits c + 1\<rparr>)"
  by (simp add: getBusiness_route_def spec_cache_service_def spec_get_def getBusiness_def)

lemma route_reads_or_stores:
  "snd (getBusiness_route svc executeQuery now now' b u v c) =
     snd (service_get svc (business_cacheKey b u v) now c)
   \<or> (\<exists>d. snd (getBusiness_route svc executeQuery now now' b u v c) =
         service_set svc (business_cacheKey b u v) d 300000 now'
           (snd (service_get svc (business_cacheKey b u v) now c)))"
proof -
  obtain cd c1 where g: "service_get svc (business_cacheKey b u v) now c = (cd, c1)"
    by (cases "service_get svc (business_cacheKey b u v) now c")
  obtain res st where h: "getBusiness executeQuery cd b u v = (res, st)"
    by (cases "getBusiness executeQuery cd b u v")
  show ?thesis
  proof (cases st)
    case None
    then show ?thesis by (simp add: getBusiness_route_def g h)
  next
    case (Some x)
    obtain k' d t where x: "x = (k', d, t)" by (cases x)
    have "snd (getBusiness executeQuery cd b u v) = Some (k', d, t)" by (simp add: h Some x)
    then have "k' = business_cacheKey b u v \<and> t = 300000" by (rule getBusiness_set_key)
    then show ?thesis by (auto simp: getBusiness_route_def g h Some x)
  qed
qed

text \<open>A miss under group security on the scenario database.\<close>

lemma scenario_group: "executeQuery_on scenario_db (GroupQuery 1) =
    Some [[(''ANALYTICS_GROUP_LEVEL_NAME'', Str ''GROUP SECURITY'')]]"
  by (simp add: scenario_db_def)

lemma scenario_business:
  "executeQuery_on scenario_db (BusinessOfVertical v) =
     Some (if v = ''Energy'' then [[(''BUNAME'', Str ''Power Generation'')]] else [])"
  by (simp add: scenario_db_def buname_rows_def business_of_vertical_def)

lemma route_miss:
  assumes "map_get (business_cacheKey 1 u v) (spec_entries c) = None"
  shows "getBusiness_route spec_cache_service (executeQuery_on scenario_db) now now' 1 u v c =
     (\<lparr>status = 200, body = Payload (if v = ''Energy'' then [[(''BUNAME'', Str ''Power Generation'')]] else []) False\<rparr>,
      spec_set (business_cacheKey 1 u v)
        (if v = ''Energy'' then [[(''BUNAME'', Str ''Power Generation'')]] else []) 300000 now'
        (c\<lparr>spec_misses := spec_misses c + 1\<rparr>))"
  using assms
  by (simp add: getBusiness_route_def spec_cache_service_def spec_get_def getBusiness_def
      scenario_group scenario_business group_security_def map_get_def del: executeQuery_on.simps)

lemma key_inj: "(business_cacheKey b u v = business_cacheKey b u w) = (v = w)"
  by (simp add: business_cacheKey_def)

lemma map_get_None: "(map_get k m = None) = (k \<notin> set (map_keys m))"
  by (simp add: map_get_def map_keys_def map_of_eq_None_iff)

lemma fill_server_state:
  "n \<le> 999 \<Longrightarrow>
   spec_entries (fill_server n) =
     (business_cacheKey 1 1 ''Energy'',
      \<lparr>entry_value = [[(''BUNAME'', Str ''Power Generation'')]], createdAt = 0, entry_ttl = 300000\<rparr>)
     # map (\<lambda>i. (business_cacheKey 1 1 (replicate (Suc i) CHR ''x''),
                 \<lparr>entry_value = [], createdAt = int i + 1, entry_ttl = 300000\<rparr>)) [0..<n]
   \<and> spec_maxSize (fill_server n) = 1000"
proof (induction n)
  case 0
  show ?case
    by (simp add: route_miss new_spec_cache_def spec_set_def)
next
  case (Suc n)
  let ?k = "business_cacheKey 1 1 (replicate (Suc n) CHR ''x'')"
  let ?e = "\<lparr>entry_value = ([] :: row list), createdAt = int n + 1, entry_ttl = 300000\<rparr>"
  let ?es = "(business_cacheKey 1 1 ''Energy'',
      \<lparr>entry_value = [[(''BUNAME'', Str ''Power Generation'')]], createdAt = 0, entry_ttl = 300000\<rparr>)
     # map (\<lambda>i. (business_cacheKey 1 1 (replicate (Suc i) CHR ''x''),
                 \<lparr>entry_value = [], createdAt = int i + 1, entry_ttl = 300000\<rparr>)) [0..<n]"
  from Suc have prev: "spec_entries (fill_server n) = ?es" "spec_maxSize (fill_server n) = 1000"
    by simp_all
  have new: "?k \<notin> set (map_keys ?es)"
    by (auto simp: map_keys_def key_inj dest: arg_cong [where f = length])
  then have miss: "map_get ?k (spec_entries (fill_server n)) = None"
    unfolding prev by (rule iffD2 [OF map_get_None])
  have ne: "replicate (Suc n) CHR ''x'' \<noteq> ''Energy''" by simp
  have step: "fill_server (Suc n) =
      spec_set ?k [] 300000 (int n + 1)
        ((fill_server n)\<lparr>spec_misses := spec_misses (fill_server n) + 1\<rparr>)"
    by (simp only: fill_server.simps route_miss [OF miss] ne if_False snd_conv)
  have len: "length ?es < 1000" using Suc.prems by simp
  have "spec_entries (fill_server (Suc n)) = map_set ?k ?e ?es"
    unfolding step using len by (simp add: spec_set_def prev del: map_set.simps replicate_Suc)
  also have "\<dots> = ?es @ [(?k, ?e)]" using new by (rule map_set_new)
  finally have "spec_entries (fill_server (Suc n)) = ?es @ [(?k, ?e)]" .
  moreover have "spec_maxSize (fill_server (Suc n)) = 1000"
    unfolding step by (simp add: spec_set_def prev)
  ultimately show ?case by simp
qed

lemma full_server_evicts:
  "map_get (business_cacheKey 1 1 ''Energy'')
     (spec_entries (snd (getBusiness_route spec_cache_service (executeQuery_on scenario_db)
        1000 1001 1 1 ''Logistics'' scenario_full_server))) = None"
proof -
  let ?fs = "map (\<lambda>i. (business_cacheKey 1 1 (replicate (Suc i) CHR ''x''),
                 \<lparr>entry_value = ([] :: row list), createdAt = int i + 1, entry_ttl = 300000\<rparr>)) [0..<999]"
  let ?e = "\<lparr>entry_value = ([] :: row list), createdAt = 1001, entry_ttl = 300000\<rparr>"
  have st: "spec_entries (fill_server 999) =
     (business_cacheKey 1 1 ''Energy'',
      \<lparr>entry_value = [[(''BUNAME'', Str ''Power Generation'')]], createdAt = 0, entry_ttl = 300000\<rparr>) # ?fs
     \<and> spec_maxSize (fill_server 999) = 1000"
    by (rule fill_server_state) simp
  have e: "spec_entries scenario_full_server =
     (business_cacheKey 1 1 ''Energy'',
      \<lparr>entry_value = [[(''BUNAME'', Str ''Power Generation'')]], createdAt = 0, entry_ttl = 300000\<rparr>) # ?fs"
    and m: "spec_maxSize scenario_full_server = 1000"
    unfolding scenario_full_server_def using st by (rule conjunct1, rule conjunct2)
  have "business_cacheKey 1 1 ''Logistics'' \<notin> set (map_keys (spec_entries scenario_full_server))"
    unfolding e by (auto simp: map_keys_def key_inj)
  then have miss: "map_get (business_cacheKey 1 1 ''Logistics'') (spec_entries scenario_full_server) = None"
    by (rule iffD2 [OF map_get_None])
  have "business_cacheKey 1 1 ''Energy'' \<notin> set (map_keys ?fs)"
    by (auto simp: map_keys_def key_inj)
  then have gone: "map_get (business_cacheKey 1 1 ''Energy'') ?fs = None"
    by (rule iffD2 [OF map_get_None])
  have len: "length (spec_entries scenario_full_server) = 1000" unfolding e by simp
  have "spec_entries (snd (getBusiness_route spec_cache_service (executeQuery_on scenario_db)
        1000 1001 1 1 ''Logistics'' scenario_full_server)) =
      map_set (business_cacheKey 1 1 ''Logistics'') ?e (drop 1 (spec_entries scenario_full_server))"
    using len by (simp only: route_miss [OF miss] snd_conv) (simp add: spec_set_def m)
  also have "\<dots> = map_set (business_cacheKey 1 1 ''Logistics'') ?e ?fs"
    unfolding e by simp
  finally show ?thesis by (simp only: map_get_set key_inj gone) simp
qed

section \<open>Claims about the routes and the filters\<close>

text \<open>
  C3. The claim says that a business request with the vertical \<open>All\<close> is answered with
  the full business list of the caller's scope. The handler compares \<open>V.VNAME\<close> with
  the parameter and has no case for \<open>All\<close>: on the scenario database, under group
  security (bucket 1) and under per-user scoping (bucket 2), the request of user 7 with
  \<open>All\<close> is answered with the empty list, and the empty list is cached, while the full
  list of the scope is Power Generation and the request with \<open>Energy\<close> returns it. The
  query \<open>optimizedQueries.getBusiness\<close> of the performance module, which has the
  disjunct \<open>@vertical = 'All'\<close>, returns Power Generation for \<open>All\<close>.
\<close>

theorem sentinel_all_literal:
  "getBusiness (executeQuery_on scenario_db) None 1 7 ''All'' =
     (\<lparr>status = 200, body = Payload [] False\<rparr>, Some (''business_1_7_All'', [], 300000))
   \<and> getBusiness (executeQuery_on scenario_db) None 2 7 ''All'' =
     (\<lparr>status = 200, body = Payload [] False\<rparr>, Some (''business_2_7_All'', [], 300000))
   \<and> full_business_list scenario_db 1 7 = [''Power Generation'']
   \<and> full_business_list scenario_db 2 7 = [''Power Generation'']
   \<and> getBusiness (executeQuery_on scenario_db) None 1 7 ''Energy'' =
     (\<lparr>status = 200, body = Payload [[(''BUNAME'', Str ''Power Generation'')]] False\<rparr>,
      Some (''business_1_7_Energy'', [[(''BUNAME'', Str ''Power Generation'')]], 300000))
   \<and> optimized_getBusiness scenario_db 7 ''All'' = [[(''BUNAME'', Str ''Power Generation'')]]"
  by (simp add: getBusiness_def scenario_db_def group_security_def map_get_def
      business_cacheKey_def number_string_def digits.simps buname_rows_def
      business_of_vertical_def full_business_list_def optimized_getBusiness_def)

text \<open>
  C4. On the per-user path (no cached data, the group query answered, group security
  not active): when the \<open>BUID\<close> query returns no row the response is 404 with the
  error \<open>No matching BUID found\<close> and nothing is cached; when it returns at least one
  row the response is not 404 (it is 200, or 500 when the business query throws). The
  \<open>BUID\<close> query returns no row exactly when \<open>USERGROUPS\<close> has no row for the user.
\<close>

theorem no_buid_not_found:
  assumes "executeQuery (GroupQuery b) = Some g" and "\<not> group_security g"
  shows "(executeQuery (BuidQuery u) = Some [] \<longrightarrow>
            getBusiness executeQuery None b u v =
              (\<lparr>status = 404, body = ErrorBody ''No matching BUID found''\<rparr>, None))
     \<and> (executeQuery (BuidQuery u) = Some buidResult \<and> buidResult \<noteq> [] \<longrightarrow>
            status (fst (getBusiness executeQuery None b u v)) \<noteq> 404
          \<and> (status (fst (getBusiness executeQuery None b u v)) = 200
             \<or> getBusiness executeQuery None b u v = (internal_server_error, None)))
     \<and> ((executeQuery_on db (BuidQuery u) = Some []) = (\<forall>r \<in> set (USERGROUPS db). fst r \<noteq> u))"
proof (intro conjI impI)
  assume "executeQuery (BuidQuery u) = Some []"
  then show "getBusiness executeQuery None b u v =
              (\<lparr>status = 404, body = ErrorBody ''No matching BUID found''\<rparr>, None)"
    using assms by (simp add: getBusiness_def)
next
  assume a: "executeQuery (BuidQuery u) = Some buidResult \<and> buidResult \<noteq> []"
  then show "status (fst (getBusiness executeQuery None b u v)) \<noteq> 404"
    using assms by (simp add: getBusiness_def internal_server_error_def split: option.split)
  from a show "status (fst (getBusiness executeQuery None b u v)) = 200
             \<or> getBusiness executeQuery None b u v = (internal_server_error, None)"
    using assms by (simp add: getBusiness_def split: option.split)
next
  show "(executeQuery_on db (BuidQuery u) = Some []) = (\<forall>r \<in> set (USERGROUPS db). fst r \<noteq> u)"
    by (auto simp: filter_empty_conv)
qed

text \<open>
  The witness is the scenario of the specification: bucket 2, user 99 without
  \<open>USERGROUPS\<close> rows, vertical Energy; and user 7, who has a row, gets 200.
\<close>

theorem no_buid_not_found_witness:
  "getBusiness (executeQuery_on scenario_db) None 2 99 ''Energy'' =
     (\<lparr>status = 404, body = ErrorBody ''No matching BUID found''\<rparr>, None)
   \<and> status (fst (getBusiness (executeQuery_on scenario_db) None 2 7 ''Energy'')) = 200
   \<and> executeQuery_on scenario_db (BuidQuery 99) = Some []
   \<and> executeQuery_on scenario_db (BuidQuery 7) = Some [[(''BUID'', Num 10)]]"
  using no_buid_not_found [where executeQuery = "executeQuery_on scenario_db" and b = 2
      and g = "[[(''ANALYTICS_GROUP_LEVEL_NAME'', Str ''USER LEVEL'')]]" and u = 99
      and v = "''Energy''" and db = scenario_db and buidResult = "[]"]
    no_buid_not_found [where executeQuery = "executeQuery_on scenario_db" and b = 2
      and g = "[[(''ANALYTICS_GROUP_LEVEL_NAME'', Str ''USER LEVEL'')]]" and u = 7
      and v = "''Energy''" and db = scenario_db and buidResult = "[[(''BUID'', Num 10)]]"]
  by (simp add: scenario_db_def group_security_def map_get_def getBusiness_def
      buname_rows_def business_of_vertical_def internal_server_error_def)

text \<open>
  C8 (as amended). When the debounced update of the vertical runs with a non-empty
  value, the hook's filters become that vertical with business and site empty, and the
  client cache is what it was, timers included. The page's update does the same for any
  value, leaves the module's cache as it was, and calls for the business list of the
  new vertical when the value is neither empty nor \<open>All\<close>. The server's cache key of
  the business list contains the vertical, so the key of a different vertical is a
  different key. The business request for the new vertical leaves the entry under every
  other key of the server cache as it was, provided the cache is below its capacity
  when the request arrives.
\<close>

theorem cascade_reset:
  "(v \<noteq> [] \<longrightarrow>
      hook_filters (debouncedUpdateBusiness_func v st) =
        (hook_filters st)\<lparr>vertical := v, business := [], site := []\<rparr>
    \<and> frontendCache (debouncedUpdateBusiness_func v st) = frontendCache st)
   \<and> filters (fst (debouncedUpdateFilter_func Vertical v pg)) =
        (filters pg)\<lparr>vertical := v, business := [], site := []\<rparr>
   \<and> page_cache (fst (debouncedUpdateFilter_func Vertical v pg)) = page_cache pg
   \<and> snd (debouncedUpdateFilter_func Vertical v pg) =
        (if v \<noteq> [] \<and> v \<noteq> ''All'' then [GetBusiness 1 1 v] else [])
   \<and> (v \<noteq> old \<longrightarrow> business_cacheKey b u v \<noteq> business_cacheKey b u old)
   \<and> (k \<noteq> business_cacheKey b u v \<and> length (spec_entries c) < spec_maxSize c \<longrightarrow>
        map_get k (spec_entries (snd (getBusiness_route spec_cache_service executeQuery
            now now' b u v c))) = map_get k (spec_entries c))"
proof (intro conjI impI)
  assume "v \<noteq> []"
  then show "hook_filters (debouncedUpdateBusiness_func v st) =
        (hook_filters st)\<lparr>vertical := v, business := [], site := []\<rparr>"
    "frontendCache (debouncedUpdateBusiness_func v st) = frontendCache st"
    by (simp_all add: debouncedUpdateBusiness_func_def updateBusiness_def initial_filters_def)
next
  show "filters (fst (debouncedUpdateFilter_func Vertical v pg)) =
        (filters pg)\<lparr>vertical := v, business := [], site := []\<rparr>"
    "page_cache (fst (debouncedUpdateFilter_func Vertical v pg)) = page_cache pg"
    "snd (debouncedUpdateFilter_func Vertical v pg) =
        (if v \<noteq> [] \<and> v \<noteq> ''All'' then [GetBusiness 1 1 v] else [])"
    by (simp_all add: debouncedUpdateFilter_func_def Let_def)
next
  assume "v \<noteq> old"
  then show "business_cacheKey b u v \<noteq> business_cacheKey b u old"
    by (simp add: key_inj)
next
  assume "k \<noteq> business_cacheKey b u v \<and> length (spec_entries c) < spec_maxSize c"
  then show "map_get k (spec_entries (snd (getBusiness_route spec_cache_service executeQuery
            now now' b u v c))) = map_get k (spec_entries c)"
    by (simp add: route_other)
qed

text \<open>
  The witness: vertical Energy, business Power Generation, site Mundra Port; setting
  the vertical to Logistics empties business and site, and the request for Logistics,
  sent at time 1000 to a server cache that holds the one entry of Energy, leaves that
  entry where it is.
\<close>

theorem cascade_reset_witness:
  "hook_filters (debouncedUpdateBusiness_func ''Logistics'' scenario_hook)
     = \<lparr>vertical = ''Logistics'', business = [], site = [], year = ''2024'', month = ''1'', date = []\<rparr>
   \<and> frontendCache (debouncedUpdateBusiness_func ''Logistics'' scenario_hook)
     = frontendCache scenario_hook
   \<and> snd (debouncedUpdateFilter_func Vertical ''Logistics'' scenario_page)
     = [GetBusiness 1 1 ''Logistics'']
   \<and> business_cacheKey 1 1 ''Logistics'' \<noteq> business_cacheKey 1 1 ''Energy''
   \<and> map_get (business_cacheKey 1 1 ''Energy'')
        (spec_entries (snd (getBusiness_route spec_cache_service (executeQuery_on scenario_db)
           1000 1001 1 1 ''Logistics'' scenario_server)))
     = Some \<lparr>entry_value = [[(''BUNAME'', Str ''Coal Mining'')]], createdAt = 0, entry_ttl = 300000\<rparr>"
proof -
  have key: "business_cacheKey 1 1 ''Energy'' = ''business_1_1_Energy''"
    by (simp add: business_cacheKey_def number_string_def digits.simps)
  have room: "business_cacheKey 1 1 ''Energy'' \<noteq> business_cacheKey 1 1 ''Logistics''
      \<and> length (spec_entries scenario_server) < spec_maxSize scenario_server"
    by (simp add: key_inj scenario_server_def spec_set_def new_spec_cache_def)
  have held: "map_get (business_cacheKey 1 1 ''Energy'') (spec_entries scenario_server)
     = Some \<lparr>entry_value = [[(''BUNAME'', Str ''Coal Mining'')]], createdAt = 0, entry_ttl = 300000\<rparr>"
    by (simp add: key scenario_server_def spec_set_def new_spec_cache_def map_get_def)
  note w = cascade_reset [where v = "''Logistics''" and old = "''Energy''" and b = 1 and u = 1
      and st = scenario_hook and pg = scenario_page
      and k = "business_cacheKey 1 1 ''Energy''" and c = scenario_server
      and executeQuery = "executeQuery_on scenario_db" and now = 1000 and now' = 1001]
  from w have f: "hook_filters (debouncedUpdateBusiness_func ''Logistics'' scenario_hook)
     = \<lparr>vertical = ''Logistics'', business = [], site = [], year = ''2024'', month = ''1'', date = []\<rparr>"
    by (simp add: scenario_hook_def)
  from w have c: "frontendCache (debouncedUpdateBusiness_func ''Logistics'' scenario_hook)
     = frontendCache scenario_hook"
    by simp
  from w have q: "snd (debouncedUpdateFilter_func Vertical ''Logistics'' scenario_page)
     = [GetBusiness 1 1 ''Logistics'']"
    by simp
  from w have n: "business_cacheKey 1 1 ''Logistics'' \<noteq> business_cacheKey 1 1 ''Energy''"
    by simp
  from w room have "map_get (business_cacheKey 1 1 ''Energy'')
        (spec_entries (snd (getBusiness_route spec_cache_service (executeQuery_on scenario_db)
           1000 1001 1 1 ''Logistics'' scenario_server)))
     = map_get (business_cacheKey 1 1 ''Energy'') (spec_entries scenario_server)"
    by blast
  with held f c q n show ?thesis by simp
qed

text \<open>
  The claim as stated fails on a server cache at capacity. The cache holds 1000
  entries, the oldest of them the business list of Energy for bucket 1 and user 1,
  stored at time 0 for five minutes. At time 1000 the vertical of the hook with
  business Power Generation is set to Logistics: business and site are emptied, and the
  business request for Logistics, a miss, stores its list and evicts the entry of
  Energy, which had not expired.
\<close>

theorem cascade_eviction_counterexample:
  "business (hook_filters scenario_hook) = ''Power Generation''
   \<and> hook_filters (debouncedUpdateBusiness_func ''Logistics'' scenario_hook)
     = \<lparr>vertical = ''Logistics'', business = [], site = [], year = ''2024'', month = ''1'', date = []\<rparr>
   \<and> map_get (business_cacheKey 1 1 ''Energy'') (spec_entries scenario_full_server)
     = Some \<lparr>entry_value = [[(''BUNAME'', Str ''Power Generation'')]], createdAt = 0,
             entry_ttl = 300000\<rparr>
   \<and> length (spec_entries scenario_full_server) = spec_maxSize scenario_full_server
   \<and> map_get (business_cacheKey 1 1 ''Energy'')
        (spec_entries (snd (getBusiness_route spec_cache_service (executeQuery_on scenario_db)
           1000 1001 1 1 ''Logistics'' scenario_full_server)))
     = None"
proof -
  have st: "spec_entries (fill_server 999) =
     (business_cacheKey 1 1 ''Energy'',
      \<lparr>entry_value = [[(''BUNAME'', Str ''Power Generation'')]], createdAt = 0, entry_ttl = 300000\<rparr>)
     # map (\<lambda>i. (business_cacheKey 1 1 (replicate (Suc i) CHR ''x''),
                 \<lparr>entry_value = [], createdAt = int i + 1, entry_ttl = 300000\<rparr>)) [0..<999]
     \<and> spec_maxSize (fill_server 999) = 1000"
    by (rule fill_server_state) simp
  have "business (hook_filters scenario_hook) = ''Power Generation''"
    by (simp add: scenario_hook_def)
  moreover have "hook_filters (debouncedUpdateBusiness_func ''Logistics'' scenario_hook)
     = \<lparr>vertical = ''Logistics'', business = [], site = [], year = ''2024'', month = ''1'', date = []\<rparr>"
    by (simp add: scenario_hook_def debouncedUpdateBusiness_func_def updateBusiness_def
        initial_filters_def)
  moreover have "map_get (business_cacheKey 1 1 ''Energy'') (spec_entries scenario_full_server)
     = Some \<lparr>entry_value = [[(''BUNAME'', Str ''Power Generation'')]], createdAt = 0,
             entry_ttl = 300000\<rparr>"
    unfolding scenario_full_server_def conjunct1 [OF st] by (simp add: map_get_def)
  moreover have "length (spec_entries scenario_full_server) = spec_maxSize scenario_full_server"
    unfolding scenario_full_server_def conjunct1 [OF st] conjunct2 [OF st] by simp
  moreover note full_server_evicts
  ultimately show ?thesis by blast
qed

text \<open>
  C5 (as amended). The manual refresh clears the client-layer cache only: the hook's
  \<open>refreshData\<close> empties \<open>frontendCache\<close> and resets its counters, and the page's
  \<open>refreshAllData\<close> empties the module's cache. The server layer is not cleared: the
  business route does nothing to its cache but read the requested key and, at most,
  store one entry under that key; and an entry of the server cache that has not
  expired is served again to the re-fetch, marked as cached, and stays in the store
  (the cache counts a hit). \<open>refreshData\<close> re-fetches business, site and months, and neither
  vertical nor years; \<open>refreshAllData\<close> starts, together, the fetches of vertical and
  years, of business and site when their parent filter is set and is not \<open>All\<close>, and
  of months when a year is set, each of a different fetch type and each with its
  loading flag set. In the page, a failure of one fetch does not block the others: a
  fetch that settles, in success or in failure, leaves the option list, the loading
  flag and the cached flag of every other fetch type as they were and clears its own
  loading flag; a failure stores the empty list under its own type and leaves the
  metrics as they were, while a success counts in the metrics the fetches share; and
  fetches of different types settle to the same state in either order.
\<close>

theorem refresh_client_only:
  "cache (frontendCache (fst (refreshData st))) = []
   \<and> hits (frontendCache (fst (refreshData st))) = 0
   \<and> misses (frontendCache (fst (refreshData st))) = 0
   \<and> snd (refreshData st) =
       [GetBusiness (bucketId st) (userId st) (vertical (hook_filters st)),
        GetSite (bucketId st) (userId st) (business (hook_filters st)),
        GetMonths (year (hook_filters st))]
   \<and> page_cache (fst (refreshAllData pg)) = []
   \<and> snd (refreshAllData pg) =
       [GetVertical 1 1, GetYears]
       @ (if vertical (filters pg) \<noteq> [] \<and> vertical (filters pg) \<noteq> ''All''
          then [GetBusiness 1 1 (vertical (filters pg))] else [])
       @ (if business (filters pg) \<noteq> [] \<and> business (filters pg) \<noteq> ''All''
          then [GetSite 1 1 (business (filters pg))] else [])
       @ (if year (filters pg) \<noteq> [] then [GetMonths (year (filters pg))] else [])
   \<and> distinct (map fetch_type (snd (refreshAllData pg)))
   \<and> (\<forall>call \<in> set (snd (refreshAllData pg)).
         loading (fst (refreshAllData pg)) (fetch_type call) = Some True)
   \<and> (snd (getBusiness_route svc executeQuery now now' b u v c) =
         snd (service_get svc (business_cacheKey b u v) now c)
       \<or> (\<exists>stored. snd (getBusiness_route svc executeQuery now now' b u v c) =
             service_set svc (business_cacheKey b u v) stored 300000 now'
               (snd (service_get svc (business_cacheKey b u v) now c))))
   \<and> (map_get (business_cacheKey b u v) (spec_entries c0) = Some e
         \<and> now < createdAt e + entry_ttl e \<longrightarrow>
         getBusiness_route spec_cache_service executeQuery now now' b u v c0 =
         (\<lparr>status = 200, body = Payload (entry_value e) True\<rparr>,
          c0\<lparr>spec_hits := spec_hits c0 + 1\<rparr>))
   \<and> (k1 \<noteq> k2 \<longrightarrow>
         fetchData_settle k1 r1 (fetchData_settle k2 r2 pg) =
           fetchData_settle k2 r2 (fetchData_settle k1 r1 pg)
       \<and> options (fetchData_settle k2 r2 pg) k1 = options pg k1
       \<and> loading (fetchData_settle k2 r2 pg) k1 = loading pg k1
       \<and> cached (fetchData_settle k2 r2 pg) k1 = cached pg k1)
   \<and> loading (fetchData_settle k1 r1 pg) k1 = Some False
   \<and> options (fetchData_settle k1 Rejected pg) k1 = Some []
   \<and> page_metrics (fetchData_settle k1 Rejected pg) = page_metrics pg
   \<and> apiCalls (page_metrics (fetchData_settle k1 (Resolved rows fromCache) pg)) =
       apiCalls (page_metrics pg) + 1"
proof (intro conjI impI ballI)
  show "cache (frontendCache (fst (refreshData st))) = []"
    "hits (frontendCache (fst (refreshData st))) = 0"
    "misses (frontendCache (fst (refreshData st))) = 0"
    by (simp_all add: refreshData_def FrontendCache_clear_def)
  show "snd (refreshData st) =
       [GetBusiness (bucketId st) (userId st) (vertical (hook_filters st)),
        GetSite (bucketId st) (userId st) (business (hook_filters st)),
        GetMonths (year (hook_filters st))]"
    by (simp add: refreshData_def)
  show "page_cache (fst (refreshAllData pg)) = []"
    by (simp add: refreshAllData_def Let_def)
  show "snd (refreshAllData pg) =
       [GetVertical 1 1, GetYears]
       @ (if vertical (filters pg) \<noteq> [] \<and> vertical (filters pg) \<noteq> ''All''
          then [GetBusiness 1 1 (vertical (filters pg))] else [])
       @ (if business (filters pg) \<noteq> [] \<and> business (filters pg) \<noteq> ''All''
          then [GetSite 1 1 (business (filters pg))] else [])
       @ (if year (filters pg) \<noteq> [] then [GetMonths (year (filters pg))] else [])"
    by (rule refresh_calls)
  show "distinct (map fetch_type (snd (refreshAllData pg)))"
    by (simp add: refresh_calls)
  show "snd (getBusiness_route svc executeQuery now now' b u v c) =
         snd (service_get svc (business_cacheKey b u v) now c)
       \<or> (\<exists>stored. snd (getBusiness_route svc executeQuery now now' b u v c) =
             service_set svc (business_cacheKey b u v) stored 300000 now'
               (snd (service_get svc (business_cacheKey b u v) now c)))"
    by (rule route_reads_or_stores)
  show "loading (fetchData_settle k1 r1 pg) k1 = Some False" by (rule settle_own)
  show "options (fetchData_settle k1 Rejected pg) k1 = Some []"
    "page_metrics (fetchData_settle k1 Rejected pg) = page_metrics pg"
    "apiCalls (page_metrics (fetchData_settle k1 (Resolved rows fromCache) pg)) =
       apiCalls (page_metrics pg) + 1"
    by (simp_all add: fetchData_settle_def)
next
  fix call assume "call \<in> set (snd (refreshAllData pg))"
  then show "loading (fst (refreshAllData pg)) (fetch_type call) = Some True"
    by (rule refresh_loading)
next
  assume "map_get (business_cacheKey b u v) (spec_entries c0) = Some e
         \<and> now < createdAt e + entry_ttl e"
  then show "getBusiness_route spec_cache_service executeQuery now now' b u v c0 =
         (\<lparr>status = 200, body = Payload (entry_value e) True\<rparr>,
          c0\<lparr>spec_hits := spec_hits c0 + 1\<rparr>)"
    by (simp add: route_hit)
next
  assume "k1 \<noteq> k2"
  then show "fetchData_settle k1 r1 (fetchData_settle k2 r2 pg) =
           fetchData_settle k2 r2 (fetchData_settle k1 r1 pg)"
    by (rule settle_commute)
next
  assume "k1 \<noteq> k2"
  then show "options (fetchData_settle k2 r2 pg) k1 = options pg k1"
    "loading (fetchData_settle k2 r2 pg) k1 = loading pg k1"
    "cached (fetchData_settle k2 r2 pg) k1 = cached pg k1"
    by (simp_all add: settle_other)
qed

text \<open>
  The witness: the refresh of the scenario page; the business request for Energy at
  time 1000 on the server cache that stored the list at time 0; and the fetch of years
  failing beside the fetch of vertical.
\<close>

theorem refresh_client_only_witness:
  "snd (refreshAllData scenario_page)
     = [GetVertical 1 1, GetYears, GetBusiness 1 1 ''Energy'', GetMonths ''2024'']
   \<and> loading (fst (refreshAllData scenario_page)) ''getBusiness'' = Some True
   \<and> getBusiness_route spec_cache_service (executeQuery_on scenario_db) 1000 1001 1 1 ''Energy''
        scenario_server =
      (\<lparr>status = 200, body = Payload [[(''BUNAME'', Str ''Coal Mining'')]] True\<rparr>,
       scenario_server\<lparr>spec_hits := spec_hits scenario_server + 1\<rparr>)
   \<and> options (fetchData_settle ''getYears'' Rejected scenario_page) ''getVertical''
      = options scenario_page ''getVertical''
   \<and> loading (fetchData_settle ''getYears'' Rejected scenario_page) ''getVertical''
      = loading scenario_page ''getVertical''
   \<and> cached (fetchData_settle ''getYears'' Rejected scenario_page) ''getVertical''
      = cached scenario_page ''getVertical''"
proof -
  note w = refresh_client_only [where pg = scenario_page
      and now = 1000 and now' = 1001 and b = 1 and u = 1
      and v = "''Energy''" and ?c0.0 = scenario_server
      and e = "\<lparr>entry_value = [[(''BUNAME'', Str ''Coal Mining'')]], createdAt = 0,
                entry_ttl = 300000\<rparr>"
      and svc = spec_cache_service and c = scenario_server
      and executeQuery = "executeQuery_on scenario_db"
      and ?k1.0 = "''getVertical''" and ?k2.0 = "''getYears''" and ?r2.0 = Rejected
      and ?r1.0 = "Resolved [] False" and st = scenario_hook and rows = "[]"
      and fromCache = False]
  have held: "map_get (business_cacheKey 1 1 ''Energy'') (spec_entries scenario_server)
     = Some \<lparr>entry_value = [[(''BUNAME'', Str ''Coal Mining'')]], createdAt = 0,
              entry_ttl = 300000\<rparr>"
    by (simp add: business_cacheKey_def number_string_def digits.simps scenario_server_def
        spec_set_def new_spec_cache_def map_get_def)
  from w have calls: "snd (refreshAllData scenario_page)
     = [GetVertical 1 1, GetYears, GetBusiness 1 1 ''Energy'', GetMonths ''2024'']"
    by (simp add: scenario_page_def)
  from w have "\<forall>call \<in> set (snd (refreshAllData scenario_page)).
      loading (fst (refreshAllData scenario_page)) (fetch_type call) = Some True"
    by blast
  then have flag: "loading (fst (refreshAllData scenario_page)) ''getBusiness'' = Some True"
    unfolding calls by simp
  from w held have hit: "getBusiness_route spec_cache_service (executeQuery_on scenario_db)
        1000 1001 1 1 ''Energy'' scenario_server =
      (\<lparr>status = 200, body = Payload [[(''BUNAME'', Str ''Coal Mining'')]] True\<rparr>,
       scenario_server\<lparr>spec_hits := spec_hits scenario_server + 1\<rparr>)"
    by simp
  from w have own: "options (fetchData_settle ''getYears'' Rejected scenario_page) ''getVertical''
      = options scenario_page ''getVertical''"
    "loading (fetchData_settle ''getYears'' Rejected scenario_page) ''getVertical''
      = loading scenario_page ''getVertical''"
    "cached (fetchData_settle ''getYears'' Rejected scenario_page) ''getVertical''
      = cached scenario_page ''getVertical''"
    by simp_all
  from calls flag hit own show ?thesis by blast
qed

text \<open>
  The claim as stated fails. The requests of the hook's refresh are those for business,
  site and months, with none for vertical or years; and the server layer is not
  cleared: after the refresh at time 1000 the server cache still holds the business
  list stored at time 0, and the business request that the refresh sends is answered
  from it (Coal Mining, marked as cached) although the database now has Power
  Generation.
\<close>

theorem refresh_counterexample:
  "snd (refreshData scenario_hook) =
     [GetBusiness 1 1 ''Energy'', GetSite 1 1 ''Power Generation'', GetMonths ''2024'']
   \<and> getBusiness_route spec_cache_service (executeQuery_on scenario_db) 1000 1001 1 1 ''Energy''
        scenario_server =
      (\<lparr>status = 200, body = Payload [[(''BUNAME'', Str ''Coal Mining'')]] True\<rparr>,
       scenario_server\<lparr>spec_hits := 1\<rparr>)
   \<and> spec_entries scenario_server =
      [(''business_1_1_Energy'',
        \<lparr>entry_value = [[(''BUNAME'', Str ''Coal Mining'')]], createdAt = 0, entry_ttl = 300000\<rparr>)]
   \<and> executeQuery_on scenario_db (BusinessOfVertical ''Energy'') =
      Some [[(''BUNAME'', Str ''Power Generation'')]]"
  by (simp add: refreshData_def scenario_hook_def scenario_server_def getBusiness_route_def
      spec_cache_service_def spec_get_def spec_set_def new_spec_cache_def
      map_get_def getBusiness_def business_cacheKey_def
      number_string_def digits.simps scenario_db_def buname_rows_def business_of_vertical_def)

end
